theory Spec2Isabelle
  imports Complex_Main "HOL-Library.Word" "HOL-Library.AList"
begin

section \<open>Common conventions\<close>

text \<open>
  Python exceptions are values of \<open>py_error\<close>; a function that can raise returns
  \<open>py_error + 'a\<close> with \<open>Inl\<close> for the exception. A \<open>datetime\<close> is a point on
  the real line, in seconds since the epoch; every reading of the clock
  (\<open>datetime.now\<close>, \<open>time.time\<close>) is an explicit argument of the function that reads it.
  Python's \<open>str\<close> and \<open>bytes\<close> are both character lists.
\<close>

datatype py_error =
  IndexError | KeyError | ValueError | TypeError | AttributeError | JSONDecodeError

type_synonym datetime = real

section \<open>Offline queue (bridge/offline\_queue.py)\<close>

datatype QueuedEventType =
  PERMISSION_REQUEST | PHASE_NOTIFICATION | STATUS_MESSAGE | GENERIC_MESSAGE

record 'd QueuedEvent =
  event_type :: QueuedEventType
  timestamp :: datetime
  data :: 'd
  priority :: int

record 'd OfflineQueue =
  queue :: "'d QueuedEvent list"
  max_size :: int
  max_age :: int
  is_offline :: bool
  offline_since :: "datetime option"

text \<open>\<open>OfflineQueue.__init__\<close>, with its default arguments passed explicitly.\<close>

definition OfflineQueue_init :: "int \<Rightarrow> int \<Rightarrow> 'd OfflineQueue" where
  "OfflineQueue_init msize mage =
     \<lparr>queue = [], max_size = msize, max_age = mage, is_offline = False, offline_since = None\<rparr>"

text \<open>
  \<open>_prune_old_events\<close>: keeps the events younger than \<open>max_age\<close> seconds and
  returns the number of events removed.
\<close>

definition prune_old_events :: "datetime \<Rightarrow> 'd OfflineQueue \<Rightarrow> 'd OfflineQueue \<times> int" where
  "prune_old_events now q =
     (if queue q = [] then (q, 0)
      else
        let original_count = int (length (queue q));
            kept = filter (\<lambda>e. now - timestamp e < real_of_int (max_age q)) (queue q)
        in (q\<lparr>queue := kept\<rparr>, original_count - int (length kept)))"

text \<open>\<open>list.pop(0)\<close>: raises \<open>IndexError\<close> on the empty list.\<close>

definition pop0 :: "'a list \<Rightarrow> py_error + ('a \<times> 'a list)" where
  "pop0 xs = (case xs of [] \<Rightarrow> Inl IndexError | x # rest \<Rightarrow> Inr (x, rest))"

text \<open>
  \<open>OfflineQueue.enqueue\<close>: prune, drop the oldest event when the queue is at capacity,
  append, return \<open>True\<close>.
\<close>

definition enqueue ::
  "datetime \<Rightarrow> 'd QueuedEvent \<Rightarrow> 'd OfflineQueue \<Rightarrow> py_error + ('d OfflineQueue \<times> bool)" where
  "enqueue now event q =
     (let q1 = fst (prune_old_events now q) in
      if int (length (queue q1)) \<ge> max_size q1 then
        (case pop0 (queue q1) of
           Inl e \<Rightarrow> Inl e
         | Inr (_, rest) \<Rightarrow> Inr (q1\<lparr>queue := rest @ [event]\<rparr>, True))
      else Inr (q1\<lparr>queue := queue q1 @ [event]\<rparr>, True))"

section \<open>Rate limiter (bridge/rate\_limiter.py)\<close>

text \<open>
  Durations are real numbers of seconds: the source computes them in floating point and
  \<open>timedelta\<close> rounds them to microseconds, which the model does not.
\<close>

record UserRateState =
  request_times :: "datetime list"
  denial_count :: int
  last_denial :: "datetime option"
  backoff_until :: "datetime option"

text \<open>The dataclass defaults, which \<open>defaultdict(UserRateState)\<close> stores on a first access.\<close>

definition UserRateState_default :: UserRateState where
  "UserRateState_default =
     \<lparr>request_times = [], denial_count = 0, last_denial = None, backoff_until = None\<rparr>"

record RateLimiter =
  requests_per_minute :: int
  denial_backoff_base :: real
  denial_backoff_max :: real
  denial_threshold :: int
  user_states :: "int \<rightharpoonup> UserRateState"

definition RateLimiter_init :: "int \<Rightarrow> real \<Rightarrow> real \<Rightarrow> int \<Rightarrow> RateLimiter" where
  "RateLimiter_init rpm base mx threshold =
     \<lparr>requests_per_minute = rpm, denial_backoff_base = base, denial_backoff_max = mx,
      denial_threshold = threshold, user_states = Map.empty\<rparr>"

text \<open>\<open>self._user_states[user_id]\<close> on the \<open>defaultdict\<close>.\<close>

definition user_state :: "RateLimiter \<Rightarrow> int \<Rightarrow> UserRateState" where
  "user_state rl user_id =
     (case user_states rl user_id of None \<Rightarrow> UserRateState_default | Some st \<Rightarrow> st)"

definition put_user_state :: "RateLimiter \<Rightarrow> int \<Rightarrow> UserRateState \<Rightarrow> RateLimiter" where
  "put_user_state rl user_id st = rl\<lparr>user_states := (user_states rl)(user_id \<mapsto> st)\<rparr>"

text \<open>
  \<open>check_rate_limit\<close>: both gates are always evaluated; the denial backoff has priority.
  The result is the limiter (the request times are pruned in place) and the pair
  \<open>(allowed, wait_seconds)\<close>.
\<close>

definition check_rate_limit ::
  "datetime \<Rightarrow> int \<Rightarrow> RateLimiter \<Rightarrow> RateLimiter \<times> (bool \<times> real option)" where
  "check_rate_limit now user_id rl =
     (let st = user_state rl user_id;
          denial_blocked = (case backoff_until st of None \<Rightarrow> False | Some b \<Rightarrow> b > now);
          denial_wait = (if denial_blocked then the (backoff_until st) - now else 0);
          cutoff = now - 60;
          st1 = st\<lparr>request_times := filter (\<lambda>t. t > cutoff) (request_times st)\<rparr>;
          rate_limited = (int (length (request_times st1)) \<ge> requests_per_minute rl);
          rate_wait = (if rate_limited \<and> request_times st1 \<noteq> []
                       then 60 - (now - hd (request_times st1)) else 0);
          rl1 = put_user_state rl user_id st1
      in if denial_blocked then (rl1, (False, Some (max (1 / 10) denial_wait)))
         else if rate_limited then (rl1, (False, Some (max (1 / 10) rate_wait)))
         else (rl1, (True, None)))"

definition record_request :: "datetime \<Rightarrow> int \<Rightarrow> RateLimiter \<Rightarrow> RateLimiter" where
  "record_request now user_id rl =
     (let st = user_state rl user_id
      in put_user_state rl user_id (st\<lparr>request_times := request_times st @ [now]\<rparr>))"

text \<open>
  \<open>record_denial\<close> reads the clock twice: \<open>now1\<close> is stored as \<open>last_denial\<close>,
  \<open>now2\<close> is the base of the backoff expiry.
\<close>

definition record_denial :: "datetime \<Rightarrow> datetime \<Rightarrow> int \<Rightarrow> RateLimiter \<Rightarrow> RateLimiter" where
  "record_denial now1 now2 user_id rl =
     (let st = user_state rl user_id;
          st1 = st\<lparr>denial_count := denial_count st + 1, last_denial := Some now1\<rparr>;
          st2 =
            (if denial_count st1 \<ge> denial_threshold rl then
               let backoff =
                     min (denial_backoff_base rl *
                            2 ^ nat (denial_count st1 - denial_threshold rl))
                         (denial_backoff_max rl)
               in st1\<lparr>backoff_until := Some (now2 + backoff)\<rparr>
             else st1)
      in put_user_state rl user_id st2)"

definition record_approval :: "int \<Rightarrow> RateLimiter \<Rightarrow> RateLimiter" where
  "record_approval user_id rl =
     (let st = user_state rl user_id
      in put_user_state rl user_id (st\<lparr>denial_count := 0, backoff_until := None\<rparr>))"

definition clear_user :: "int \<Rightarrow> RateLimiter \<Rightarrow> RateLimiter" where
  "clear_user user_id rl = rl\<lparr>user_states := (user_states rl)(user_id := None)\<rparr>"


definition denied_before :: "int \<Rightarrow> RateLimiter" where
  "denied_before n =
     (RateLimiter_init 30 5 300 3)
       \<lparr>user_states := [7 \<mapsto> \<lparr>request_times = [], denial_count = n,
                               last_denial = Some 90, backoff_until = None\<rparr>]\<rparr>"

section \<open>Strings\<close>

text \<open>
  The string operations of Python that the modelled functions call. Strings are lists of
  8-bit characters, so the case mapping and the whitespace set are the ASCII ones.
\<close>

definition lower :: "string \<Rightarrow> string" where
  "lower s =
     map (\<lambda>c. if 65 \<le> (of_char c :: nat) \<and> (of_char c :: nat) \<le> 90
               then char_of ((of_char c :: nat) + 32) else c) s"

text \<open>The ASCII characters for which \<open>str.isspace\<close> holds.\<close>

definition isspace :: "char \<Rightarrow> bool" where
  "isspace c \<longleftrightarrow> (of_char c :: nat) \<in> {9, 10, 11, 12, 13, 28, 29, 30, 31, 32}"

definition strip :: "string \<Rightarrow> string" where
  "strip s = rev (dropWhile isspace (rev (dropWhile isspace s)))"

text \<open>\<open>s.split(c)\<close> for a one-character separator: empty pieces are kept.\<close>

fun split_on :: "char \<Rightarrow> string \<Rightarrow> string list" where
  "split_on c [] = [[]]"
| "split_on c (x # xs) =
     (if x = c then [] # split_on c xs
      else (case split_on c xs of w # ws \<Rightarrow> (x # w) # ws | [] \<Rightarrow> [[x]]))"

text \<open>\<open>xs.index(x)\<close>: the first position of \<open>x\<close>, or \<open>ValueError\<close>.\<close>

fun list_index :: "'a list \<Rightarrow> 'a \<Rightarrow> py_error + nat" where
  "list_index [] x = Inl ValueError"
| "list_index (y # ys) x =
     (if y = x then Inr 0
      else (case list_index ys x of Inl e \<Rightarrow> Inl e | Inr i \<Rightarrow> Inr (Suc i)))"

text \<open>\<open>s[i:j]\<close> for non-negative \<open>i\<close> and \<open>j\<close>: empty when \<open>j \<le> i\<close>.\<close>

definition slice :: "'a list \<Rightarrow> nat \<Rightarrow> nat \<Rightarrow> 'a list" where
  "slice xs i j = take (j - i) (drop i xs)"

section \<open>Shell-style matching (Python's fnmatch)\<close>

text \<open>
  Modelled from the documentation of the standard library: \<open>fnmatch.fnmatch(name, pat)\<close>
  on a POSIX system matches the whole name, \<open>*\<close> matches everything, \<open>?\<close> any single
  character, \<open>[seq]\<close> any character in \<open>seq\<close> (with ranges \<open>a-z\<close>) and \<open>[!seq]\<close> any
  character not in it; a \<open>[\<close> with no closing bracket stands for itself. The policy
  engine takes the matcher as a parameter \<open>fnm\<close>; this one instantiates it.
\<close>

fun class_member :: "string \<Rightarrow> char \<Rightarrow> bool" where
  "class_member [] c = False"
| "class_member [x] c = (x = c)"
| "class_member [x, y] c = (x = c \<or> y = c)"
| "class_member (lo # d # hi # rest) c =
     (if d = CHR ''-''
      then ((of_char lo :: nat) \<le> of_char c \<and> (of_char c :: nat) \<le> of_char hi)
             \<or> class_member rest c
      else lo = c \<or> class_member (d # hi # rest) c)"

definition class_matches :: "string \<Rightarrow> char \<Rightarrow> bool" where
  "class_matches stuff c =
     (case stuff of
        x # rest \<Rightarrow> if x = CHR ''!'' then \<not> class_member rest c else class_member stuff c
      | [] \<Rightarrow> False)"

text \<open>
  The position of the bracket that closes a class, in the pattern after its \<open>[\<close>: a
  leading \<open>!\<close> and a \<open>]\<close> right after it belong to the class.
\<close>

fun find_from :: "char \<Rightarrow> string \<Rightarrow> nat \<Rightarrow> nat option" where
  "find_from c s k =
     (case list_index (drop k s) c of Inl _ \<Rightarrow> None | Inr i \<Rightarrow> Some (k + i))"

definition bracket_end :: "string \<Rightarrow> nat option" where
  "bracket_end ps =
     (let j0 = (if take 1 ps = ''!'' then 1 else 0);
          j1 = (if take 1 (drop j0 ps) = '']'' then j0 + 1 else j0)
      in find_from CHR '']'' ps j1)"

lemma bracket_end_less: "bracket_end ps = Some j \<Longrightarrow> j < length ps"
proof -
  have idx: "list_index xs c = Inr i \<Longrightarrow> i < length xs" for xs :: string and c i
    by (induction xs arbitrary: i) (auto split: if_splits sum.splits)
  assume "bracket_end ps = Some j"
  then obtain k i where "list_index (drop k ps) CHR '']'' = Inr i" and j: "j = k + i"
    by (auto simp: bracket_end_def Let_def split: sum.splits)
  from idx [OF this(1)] j show ?thesis by auto
qed

function fnmatchcase :: "string \<Rightarrow> string \<Rightarrow> bool" where
  "fnmatchcase name [] = (name = [])"
| "fnmatchcase name (p # ps) =
     (if p = CHR ''*'' then
        fnmatchcase name ps \<or> (case name of [] \<Rightarrow> False | _ # cs \<Rightarrow> fnmatchcase cs (p # ps))
      else if p = CHR ''?'' then
        (case name of [] \<Rightarrow> False | _ # cs \<Rightarrow> fnmatchcase cs ps)
      else if p = CHR ''['' then
        (case bracket_end ps of
           None \<Rightarrow> (case name of [] \<Rightarrow> False | c # cs \<Rightarrow> c = p \<and> fnmatchcase cs ps)
         | Some j \<Rightarrow>
             (case name of [] \<Rightarrow> False
              | c # cs \<Rightarrow> class_matches (take j ps) c \<and> fnmatchcase cs (drop (Suc j) ps)))
      else
        (case name of [] \<Rightarrow> False | c # cs \<Rightarrow> c = p \<and> fnmatchcase cs ps))"
  by pat_completeness auto
termination
  by (relation "measure (\<lambda>(name, pat). length name + length pat)") auto

definition fnmatch :: "string \<Rightarrow> string \<Rightarrow> bool" where
  "fnmatch name pat = fnmatchcase name pat"

section \<open>Policy engine (policies/engine.py, policies/models.py)\<close>

datatype ActionType = FILE_CREATE | FILE_EDIT | FILE_DELETE | BASH_EXECUTE | MCP_TOOL

fun ActionType_value :: "ActionType \<Rightarrow> string" where
  "ActionType_value FILE_CREATE = ''file_create''"
| "ActionType_value FILE_EDIT = ''file_edit''"
| "ActionType_value FILE_DELETE = ''file_delete''"
| "ActionType_value BASH_EXECUTE = ''bash_execute''"
| "ActionType_value MCP_TOOL = ''mcp_tool''"

datatype RiskLevel = LOW | MEDIUM | HIGH | CRITICAL

fun RiskLevel_value :: "RiskLevel \<Rightarrow> string" where
  "RiskLevel_value LOW = ''low''"
| "RiskLevel_value MEDIUM = ''medium''"
| "RiskLevel_value HIGH = ''high''"
| "RiskLevel_value CRITICAL = ''critical''"

text \<open>The configuration model \<open>Policy\<close> (config.py).\<close>

record Policy =
  name :: string
  enabled :: bool
  action :: string
  pattern :: string
  max_risk :: string

datatype PolicyDecision = AUTO_APPROVE | AUTO_DENY | REQUIRE_MANUAL

record PolicyMatch =
  matched :: bool
  policy :: "Policy option"
  decision :: PolicyDecision
  reason :: string

definition PolicyMatch_no_match :: PolicyMatch where
  "PolicyMatch_no_match =
     \<lparr>matched = False, policy = None, decision = REQUIRE_MANUAL, reason = ''No matching policy''\<rparr>"

definition PolicyMatch_auto_approved :: "Policy \<Rightarrow> string \<Rightarrow> PolicyMatch" where
  "PolicyMatch_auto_approved p r = \<lparr>matched = True, policy = Some p, decision = AUTO_APPROVE, reason = r\<rparr>"

definition PolicyMatch_risk_exceeded :: "Policy \<Rightarrow> string \<Rightarrow> PolicyMatch" where
  "PolicyMatch_risk_exceeded p r = \<lparr>matched = False, policy = Some p, decision = REQUIRE_MANUAL, reason = r\<rparr>"

text \<open>
  \<open>PolicyEvaluationResult\<close>; its \<open>action\<close>, \<open>target\<close> and \<open>risk_level\<close> fields carry the
  prefix \<open>res\<close> here, since record fields share one name space.
\<close>

record PolicyEvaluationResult =
  match :: PolicyMatch
  evaluated_at :: datetime
  policies_checked :: int
  res_action :: string
  res_target :: string
  res_risk_level :: string

record PolicyEngine =
  policies :: "Policy list"
  evaluation_count :: int

definition RISK_ORDER :: "string list" where
  "RISK_ORDER = [''low'', ''medium'', ''high'', ''critical'']"

definition PolicyEngine_init :: "Policy list \<Rightarrow> PolicyEngine" where
  "PolicyEngine_init ps = \<lparr>policies = filter enabled ps, evaluation_count = 0\<rparr>"

text \<open>
  \<open>_pattern_matches\<close>: a pattern holding both braces is cut at the first \<open>{\<close> and the
  first \<open>}\<close>, and the target is matched against prefix, alternative and suffix put
  together, for each comma-separated alternative.
\<close>

definition pattern_matches :: "(string \<Rightarrow> string \<Rightarrow> bool) \<Rightarrow> string \<Rightarrow> string \<Rightarrow> bool" where
  "pattern_matches fnm pat tgt =
     (if CHR ''{'' \<in> set pat \<and> CHR ''}'' \<in> set pat then
        (case (list_index pat CHR ''{'', list_index pat CHR ''}'') of
           (Inr start, Inr end) \<Rightarrow>
             let prefix = take start pat;
                 suffix = drop (end + 1) pat;
                 alternatives = split_on CHR '','' (slice pat (start + 1) end)
             in list_ex (\<lambda>alt. fnm tgt (prefix @ strip alt @ suffix)) alternatives
         | _ \<Rightarrow> False)
      else fnm tgt pat)"

text \<open>\<open>_risk_acceptable\<close>: an unknown level raises \<open>ValueError\<close> inside and gives \<open>False\<close>.\<close>

definition risk_acceptable :: "string \<Rightarrow> string \<Rightarrow> bool" where
  "risk_acceptable max_r actual_r =
     (case list_index RISK_ORDER (lower max_r) of
        Inl _ \<Rightarrow> False
      | Inr max_idx \<Rightarrow>
          (case list_index RISK_ORDER (lower actual_r) of
             Inl _ \<Rightarrow> False
           | Inr actual_idx \<Rightarrow> actual_idx \<le> max_idx))"

text \<open>The loop of \<open>evaluate\<close> over the engine's policies.\<close>

fun evaluate_policies ::
  "(string \<Rightarrow> string \<Rightarrow> bool) \<Rightarrow> Policy list \<Rightarrow> string \<Rightarrow> string \<Rightarrow> string \<Rightarrow> PolicyMatch" where
  "evaluate_policies fnm [] action_str tgt risk_str = PolicyMatch_no_match"
| "evaluate_policies fnm (p # ps) action_str tgt risk_str =
     (if action p \<noteq> action_str then evaluate_policies fnm ps action_str tgt risk_str
      else if \<not> pattern_matches fnm (pattern p) tgt
        then evaluate_policies fnm ps action_str tgt risk_str
      else if \<not> risk_acceptable (max_risk p) risk_str
        then PolicyMatch_risk_exceeded p (''Risk '' @ risk_str @ '' exceeds policy max '' @ max_risk p)
      else PolicyMatch_auto_approved p (''Matched policy: '' @ name p))"

definition evaluate ::
  "(string \<Rightarrow> string \<Rightarrow> bool) \<Rightarrow> datetime \<Rightarrow> PolicyEngine \<Rightarrow> ActionType \<Rightarrow> string \<Rightarrow> RiskLevel
     \<Rightarrow> PolicyEvaluationResult \<times> PolicyEngine" where
  "evaluate fnm now eng act tgt risk =
     (let eng1 = eng\<lparr>evaluation_count := evaluation_count eng + 1\<rparr>;
          action_str = ActionType_value act;
          risk_str = RiskLevel_value risk
      in (\<lparr>match = evaluate_policies fnm (policies eng1) action_str tgt risk_str,
           evaluated_at = now,
           policies_checked = evaluation_count eng1,
           res_action = action_str, res_target = tgt, res_risk_level = risk_str\<rparr>,
          eng1))"

definition add_policy :: "Policy \<Rightarrow> PolicyEngine \<Rightarrow> PolicyEngine" where
  "add_policy p eng = (if enabled p then eng\<lparr>policies := policies eng @ [p]\<rparr> else eng)"

text \<open>The position of a level in \<open>RISK_ORDER\<close>: the scale low, medium, high, critical.\<close>

fun RiskLevel_rank :: "RiskLevel \<Rightarrow> nat" where
  "RiskLevel_rank LOW = 0"
| "RiskLevel_rank MEDIUM = 1"
| "RiskLevel_rank HIGH = 2"
| "RiskLevel_rank CRITICAL = 3"

text \<open>Two rules that both match an edit of a TypeScript file under \<open>src\<close>.\<close>

definition strict_rule :: Policy where
  "strict_rule = \<lparr>name = ''strict'', enabled = True, action = ''file_edit'',
                   pattern = ''src/**/*.ts'', max_risk = ''low''\<rparr>"

definition lax_rule :: Policy where
  "lax_rule = \<lparr>name = ''lax'', enabled = True, action = ''file_edit'',
                pattern = ''src/**/*.{ts,tsx}'', max_risk = ''critical''\<rparr>"

definition off_rule :: Policy where
  "off_rule = \<lparr>name = ''off'', enabled = False, action = ''file_edit'',
                pattern = ''*'', max_risk = ''critical''\<rparr>"

section \<open>Permission queue (bridge/permission\_queue.py)\<close>

text \<open>
  The fields \<open>action\<close>, \<open>target\<close>, \<open>context\<close>, \<open>risk_level\<close> and \<open>id\<close> of \<open>PermissionRequest\<close> carry
  the prefix \<open>req\<close>. The timeout task of a request is represented by its task name.
\<close>

record PermissionRequest =
  req_action :: ActionType
  req_target :: string
  req_context :: string
  req_risk_level :: RiskLevel
  req_id :: string
  created_at :: datetime
  telegram_message_id :: "int option"
  timeout_task :: "string option"

record PermissionResponse =
  request_id :: string
  approved :: bool
  responded_by :: int
  response_time :: datetime
  auto_approved :: bool
  policy_name :: "string option"

text \<open>
  The queue's two dictionaries are association lists in insertion order. An
  \<open>asyncio.Future\<close> is \<open>None\<close> while it is not done and \<open>Some r\<close> once \<open>set_result(r)\<close>
  has run; the caller of \<open>add\<close> awaits that future and receives its result.
\<close>

type_synonym future = "PermissionResponse option"

record PermissionQueue =
  pending :: "(string \<times> PermissionRequest) list"
  response_futures :: "(string \<times> future) list"
  timeout_seconds :: int
  default_action :: string

definition PermissionQueue_init :: "int \<Rightarrow> string \<Rightarrow> PermissionQueue" where
  "PermissionQueue_init secs act =
     \<lparr>pending = [], response_futures = [], timeout_seconds = secs, default_action = act\<rparr>"

text \<open>
  \<open>add\<close> up to its \<open>await\<close>: the request and a fresh future are stored and the timeout
  task is created. No other coroutine runs in between.
\<close>

definition add_register :: "PermissionRequest \<Rightarrow> PermissionQueue \<Rightarrow> PermissionQueue" where
  "add_register request q =
     (let request1 = request\<lparr>timeout_task := Some (''timeout-'' @ req_id request)\<rparr>
      in q\<lparr>pending := AList.update (req_id request) request1 (pending q),
           response_futures := AList.update (req_id request) None (response_futures q)\<rparr>)"

text \<open>\<open>_cleanup\<close>, which the \<open>finally\<close> block of \<open>add\<close> runs when the await ends.\<close>

definition cleanup :: "string \<Rightarrow> PermissionQueue \<Rightarrow> PermissionQueue" where
  "cleanup rid q =
     q\<lparr>pending := AList.delete rid (pending q),
       response_futures := AList.delete rid (response_futures q)\<rparr>"

definition respond :: "PermissionResponse \<Rightarrow> PermissionQueue \<Rightarrow> PermissionQueue \<times> bool" where
  "respond response q =
     (if map_of (pending q) (request_id response) = None then (q, False)
      else
        (case map_of (response_futures q) (request_id response) of
           Some None \<Rightarrow>
             (q\<lparr>response_futures :=
                  AList.update (request_id response) (Some response) (response_futures q)\<rparr>,
              True)
         | _ \<Rightarrow> (q, False)))"

text \<open>\<open>_timeout_handler\<close> from the point where its sleep has ended; \<open>now\<close> is the clock.\<close>

definition timeout_response :: "PermissionQueue \<Rightarrow> string \<Rightarrow> datetime \<Rightarrow> PermissionResponse" where
  "timeout_response q rid now =
     \<lparr>request_id = rid, approved = (default_action q = ''approve''), responded_by = 0,
      response_time = now, auto_approved = True, policy_name = Some ''timeout''\<rparr>"

definition timeout_handler :: "string \<Rightarrow> datetime \<Rightarrow> PermissionQueue \<Rightarrow> PermissionQueue" where
  "timeout_handler rid now q =
     (if map_of (pending q) rid \<noteq> None then
        (case map_of (response_futures q) rid of
           Some None \<Rightarrow>
             q\<lparr>response_futures :=
                 AList.update rid (Some (timeout_response q rid now)) (response_futures q)\<rparr>
         | _ \<Rightarrow> q)
      else q)"

text \<open>One round of the loop of \<open>cancel_all\<close>, and the whole call.\<close>

definition cancelled_response :: "string \<Rightarrow> datetime \<Rightarrow> PermissionResponse" where
  "cancelled_response rid now =
     \<lparr>request_id = rid, approved = False, responded_by = 0,
      response_time = now, auto_approved = True, policy_name = Some ''cancelled''\<rparr>"

definition cancel_one :: "datetime \<Rightarrow> string \<Rightarrow> PermissionQueue \<Rightarrow> PermissionQueue" where
  "cancel_one now rid q =
     (case map_of (response_futures q) rid of
        Some None \<Rightarrow>
          q\<lparr>response_futures :=
              AList.update rid (Some (cancelled_response rid now)) (response_futures q)\<rparr>
      | _ \<Rightarrow> q)"

definition cancel_all :: "datetime \<Rightarrow> PermissionQueue \<Rightarrow> PermissionQueue \<times> int" where
  "cancel_all now q =
     (let count = int (length (pending q));
          request_ids = map fst (pending q)
      in (fold (cancel_one now) request_ids q, count))"

text \<open>
  The event loop runs one coroutine at a time and switches only at an \<open>await\<close>, so an
  execution of the queue is a sequence of the following atomic calls, in any order: the
  registering part of an \<open>add\<close>, a \<open>respond\<close>, the firing of a timer, a \<open>cancel_all\<close>, and
  the cleanup that ends an \<open>add\<close>. The model lets a timer fire and a cleanup run at any
  moment, which covers every schedule of the source (where cancelling a timeout task only
  removes firings).
\<close>

datatype call =
  Add PermissionRequest
| Respond PermissionResponse
| TimeoutFire string datetime
| CancelAll datetime
| Cleanup string

fun step :: "call \<Rightarrow> PermissionQueue \<Rightarrow> PermissionQueue" where
  "step (Add request) q = add_register request q"
| "step (Respond response) q = fst (respond response q)"
| "step (TimeoutFire rid now) q = timeout_handler rid now q"
| "step (CancelAll now) q = fst (cancel_all now q)"
| "step (Cleanup rid) q = cleanup rid q"

fun run :: "call list \<Rightarrow> PermissionQueue \<Rightarrow> PermissionQueue" where
  "run [] q = q"
| "run (c # cs) q = run cs (step c q)"

text \<open>The future that \<open>add\<close> awaits for a request id, if the queue holds one.\<close>

definition future_of :: "PermissionQueue \<Rightarrow> string \<Rightarrow> future option" where
  "future_of q rid = map_of (response_futures q) rid"

text \<open>
  The responses that a run hands to the future of \<open>rid\<close>: one entry for each step after
  which that future is done with a result it did not have before the step.
\<close>

fun deliveries :: "string \<Rightarrow> call list \<Rightarrow> PermissionQueue \<Rightarrow> PermissionResponse list" where
  "deliveries rid [] q = []"
| "deliveries rid (c # cs) q =
     (case future_of (step c q) rid of
        Some (Some r) \<Rightarrow> (if future_of q rid = Some (Some r) then [] else [r])
      | _ \<Rightarrow> [])
     @ deliveries rid cs (step c q)"

text \<open>The number of \<open>respond\<close> calls for \<open>rid\<close> in a run that return \<open>True\<close>.\<close>

fun accepted :: "string \<Rightarrow> call list \<Rightarrow> PermissionQueue \<Rightarrow> nat" where
  "accepted rid [] q = 0"
| "accepted rid (c # cs) q =
     (case c of
        Respond response \<Rightarrow>
          (if request_id response = rid \<and> snd (respond response q) then 1 else 0)
      | _ \<Rightarrow> 0)
     + accepted rid cs (step c q)"

fun adds :: "string \<Rightarrow> call \<Rightarrow> bool" where
  "adds rid (Add request) = (req_id request = rid)"
| "adds rid _ = False"

text \<open>
  Calls that leave the request \<open>rid\<close> alone: calls for other ids and timer firings for
  any id but \<open>rid\<close>.
\<close>

fun leaves_alone :: "string \<Rightarrow> call \<Rightarrow> bool" where
  "leaves_alone rid (Add request) = (req_id request \<noteq> rid)"
| "leaves_alone rid (Respond response) = (request_id response \<noteq> rid)"
| "leaves_alone rid (TimeoutFire rid' now) = (rid' \<noteq> rid)"
| "leaves_alone rid (CancelAll now) = False"
| "leaves_alone rid (Cleanup rid') = (rid' \<noteq> rid)"

text \<open>
  A request, three users who answer it, and a run in which the answers race the timer
  and a shutdown.
\<close>

definition req1 :: PermissionRequest where
  "req1 = \<lparr>req_action = BASH_EXECUTE, req_target = ''make clean'', req_context = '''',
     req_risk_level = HIGH, req_id = ''ab12cd34'', created_at = 0,
     telegram_message_id = None, timeout_task = None\<rparr>"

definition req2 :: PermissionRequest where
  "req2 = req1\<lparr>req_id := ''ffff0000''\<rparr>"

definition approve_by :: "int \<Rightarrow> PermissionResponse" where
  "approve_by u = \<lparr>request_id = ''ab12cd34'', approved = True, responded_by = u,
     response_time = 1, auto_approved = False, policy_name = None\<rparr>"

definition race :: "call list" where
  "race = [Add req1, Respond (approve_by 11), Respond (approve_by 22),
           TimeoutFire ''ab12cd34'' 300, CancelAll 301, Cleanup ''ab12cd34'',
           Respond (approve_by 33)]"

section \<open>More of Python's string and bytes library\<close>

text \<open>
  Modelled from the documentation of the language and its standard library: \<open>str(n)\<close>
  and \<open>int(s)\<close> for decimal integers, \<open>str.rsplit\<close>, \<open>str.rstrip\<close>, \<open>bytes.hex\<close>,
  \<open>bytes.fromhex\<close>, and URL-safe Base64 as \<open>base64.urlsafe_b64encode\<close> and
  \<open>base64.urlsafe_b64decode\<close> compute it. They are used by the callback signer and the
  audit log below.
\<close>

definition isdigit :: "char \<Rightarrow> bool" where
  "isdigit c \<longleftrightarrow> 48 \<le> (of_char c :: nat) \<and> (of_char c :: nat) \<le> 57"

definition digit_char :: "nat \<Rightarrow> char" where
  "digit_char d = char_of (48 + d)"

fun str_nat :: "nat \<Rightarrow> string" where
  "str_nat n = (if n < 10 then [digit_char n] else str_nat (n div 10) @ [digit_char (n mod 10)])"

declare str_nat.simps [simp del]

definition str_int :: "int \<Rightarrow> string" where
  "str_int i = (if i < 0 then CHR ''-'' # str_nat (nat (- i)) else str_nat (nat i))"

text \<open>
  The digits of \<open>int(s)\<close>: decimal digits, where a single underscore may stand between
  two digits.
\<close>

fun digits_value :: "nat \<Rightarrow> string \<Rightarrow> py_error + nat" where
  "digits_value acc [] = Inr acc"
| "digits_value acc (c # cs) =
     (if isdigit c then digits_value (10 * acc + ((of_char c :: nat) - 48)) cs
      else if c = CHR ''_'' \<and> cs \<noteq> [] \<and> isdigit (hd cs) then digits_value acc cs
      else Inl ValueError)"

definition nat_of_str :: "string \<Rightarrow> py_error + nat" where
  "nat_of_str s = (if s \<noteq> [] \<and> isdigit (hd s) then digits_value 0 s else Inl ValueError)"

text \<open>\<open>int(s)\<close>: blanks around the number and a sign in front of it are accepted.\<close>

definition int_of_str :: "string \<Rightarrow> py_error + int" where
  "int_of_str s =
     (case strip s of
        [] \<Rightarrow> Inl ValueError
      | c # cs \<Rightarrow>
          if c = CHR ''-'' then map_sum (\<lambda>e. e) (\<lambda>n. - int n) (nat_of_str cs)
          else if c = CHR ''+'' then map_sum (\<lambda>e. e) int (nat_of_str cs)
          else map_sum (\<lambda>e. e) int (nat_of_str (c # cs)))"

text \<open>\<open>sep.join(parts)\<close> and \<open>s.rsplit(sep, maxsplit)\<close> for a one-character separator.\<close>

fun join :: "char \<Rightarrow> string list \<Rightarrow> string" where
  "join c [] = []"
| "join c [p] = p"
| "join c (p # q # ps) = p @ c # join c (q # ps)"

definition rsplit :: "char \<Rightarrow> nat \<Rightarrow> string \<Rightarrow> string list" where
  "rsplit c maxsplit s =
     (let parts = split_on c s; n = length parts
      in if n \<le> maxsplit + 1 then parts
         else join c (take (n - maxsplit) parts) # drop (n - maxsplit) parts)"

definition rstrip_char :: "char \<Rightarrow> string \<Rightarrow> string" where
  "rstrip_char c s = rev (dropWhile (\<lambda>x. x = c) (rev s))"

subsection \<open>Hexadecimal\<close>

definition hex_digit :: "nat \<Rightarrow> char" where
  "hex_digit d = (if d < 10 then char_of (48 + d) else char_of (87 + d))"

definition hex_value :: "char \<Rightarrow> nat option" where
  "hex_value c =
     (let n = (of_char c :: nat)
      in if 48 \<le> n \<and> n \<le> 57 then Some (n - 48)
         else if 97 \<le> n \<and> n \<le> 102 then Some (n - 87)
         else if 65 \<le> n \<and> n \<le> 70 then Some (n - 55)
         else None)"

text \<open>\<open>bytes.hex()\<close>: two lower-case digits for each byte.\<close>

definition hex :: "string \<Rightarrow> string" where
  "hex bs = concat (map (\<lambda>b. [hex_digit ((of_char b :: nat) div 16),
                                hex_digit ((of_char b :: nat) mod 16)]) bs)"

text \<open>
  \<open>bytes.fromhex(s)\<close>: two digits for each byte, ASCII blanks between bytes are skipped,
  anything else raises \<open>ValueError\<close>.
\<close>

definition hex_blank :: "char \<Rightarrow> bool" where
  "hex_blank c \<longleftrightarrow> (of_char c :: nat) \<in> {9, 10, 11, 12, 13, 32}"

fun fromhex :: "string \<Rightarrow> py_error + string" where
  "fromhex [] = Inr []"
| "fromhex [c] = (if hex_blank c then Inr [] else Inl ValueError)"
| "fromhex (c # d # cs) =
     (if hex_blank c then fromhex (d # cs)
      else (case (hex_value c, hex_value d) of
              (Some hi, Some lo) \<Rightarrow>
                (case fromhex cs of
                   Inl e \<Rightarrow> Inl e
                 | Inr bs \<Rightarrow> Inr (char_of (16 * hi + lo) # bs))
            | _ \<Rightarrow> Inl ValueError))"

subsection \<open>URL-safe Base64\<close>

text \<open>The alphabet: \<open>A\<close> to \<open>Z\<close>, \<open>a\<close> to \<open>z\<close>, \<open>0\<close> to \<open>9\<close>, \<open>-\<close> and \<open>_\<close>.\<close>

definition b64_char :: "nat \<Rightarrow> char" where
  "b64_char i =
     (if i < 26 then char_of (65 + i)
      else if i < 52 then char_of (71 + i)
      else if i < 62 then char_of (i - 4)
      else if i = 62 then CHR ''-'' else CHR ''_'')"

text \<open>
  The decoding table after \<open>urlsafe_b64decode\<close> has mapped \<open>-\<close> to \<open>+\<close> and \<open>_\<close> to
  \<open>/\<close>: both spellings of 62 and 63 are accepted.
\<close>

definition b64_value :: "char \<Rightarrow> nat option" where
  "b64_value c =
     (let n = (of_char c :: nat)
      in if 65 \<le> n \<and> n \<le> 90 then Some (n - 65)
         else if 97 \<le> n \<and> n \<le> 122 then Some (n - 71)
         else if 48 \<le> n \<and> n \<le> 57 then Some (n + 4)
         else if c = CHR ''-'' \<or> c = CHR ''+'' then Some 62
         else if c = CHR ''_'' \<or> c = CHR ''/'' then Some 63
         else None)"

fun urlsafe_b64encode :: "string \<Rightarrow> string" where
  "urlsafe_b64encode [] = []"
| "urlsafe_b64encode [x] =
     (let a = (of_char x :: nat)
      in [b64_char (a div 4), b64_char ((a mod 4) * 16), CHR ''='', CHR ''=''])"
| "urlsafe_b64encode [x, y] =
     (let a = (of_char x :: nat); b = (of_char y :: nat)
      in [b64_char (a div 4), b64_char ((a mod 4) * 16 + b div 16),
          b64_char ((b mod 16) * 4), CHR ''=''])"
| "urlsafe_b64encode (x # y # z # rest) =
     (let a = (of_char x :: nat); b = (of_char y :: nat); c = (of_char z :: nat)
      in [b64_char (a div 4), b64_char ((a mod 4) * 16 + b div 16),
          b64_char ((b mod 16) * 4 + c div 64), b64_char (c mod 64)]
         @ urlsafe_b64encode rest)"

text \<open>
  The decoder is the loop of \<open>binascii.a2b_base64\<close> in its default, lenient mode. Its
  state is the position in the current group of four, the bits left over from the last
  character, the number of padding characters just seen, and the bytes produced.
  Characters outside the alphabet are skipped; padding that completes a group ends the
  input; input that ends inside a group raises \<open>binascii.Error\<close>, a \<open>ValueError\<close>.
\<close>

fun a2b_base64 :: "nat \<Rightarrow> nat \<Rightarrow> nat \<Rightarrow> string \<Rightarrow> string \<Rightarrow> py_error + string" where
  "a2b_base64 quad_pos leftchar pads out [] =
     (if quad_pos \<noteq> 0 then Inl ValueError else Inr out)"
| "a2b_base64 quad_pos leftchar pads out (ch # rest) =
     (if ch = CHR ''='' then
        (if quad_pos \<ge> 2 \<and> quad_pos + (pads + 1) \<ge> 4 then Inr out
         else a2b_base64 quad_pos leftchar (if quad_pos \<ge> 2 then pads + 1 else pads) out rest)
      else
        (case b64_value ch of
           None \<Rightarrow> a2b_base64 quad_pos leftchar pads out rest
         | Some v \<Rightarrow>
             if quad_pos = 0 then a2b_base64 1 v 0 out rest
             else if quad_pos = 1 then
               a2b_base64 2 (v mod 16) 0 (out @ [char_of (leftchar * 4 + v div 16)]) rest
             else if quad_pos = 2 then
               a2b_base64 3 (v mod 4) 0 (out @ [char_of (leftchar * 16 + v div 4)]) rest
             else a2b_base64 0 0 0 (out @ [char_of (leftchar * 64 + v)]) rest))"

text \<open>A \<open>str\<close> argument is first encoded as ASCII, which fails on any other character.\<close>

definition urlsafe_b64decode :: "string \<Rightarrow> py_error + string" where
  "urlsafe_b64decode s =
     (if \<exists>c\<in>set s. (of_char c :: nat) \<ge> 128 then Inl ValueError
      else a2b_base64 0 0 0 [] s)"

text \<open>Characters of a Base64 text that are no padding, no separator of a token, and ASCII.\<close>

definition b64_plain :: "char \<Rightarrow> bool" where
  "b64_plain c \<longleftrightarrow> c \<noteq> CHR ''='' \<and> c \<noteq> CHR ''|'' \<and> (of_char c :: nat) < 128"

section \<open>Callback signer (security/crypto.py)\<close>

text \<open>
  HMAC-SHA256 is a parameter \<open>mac\<close> of the functions that sign: \<open>mac key msg\<close> stands for
  \<open>hmac.new(key, msg, hashlib.sha256).digest()\<close>. The clock \<open>int(time.time())\<close> is the
  argument \<open>now\<close>. The field \<open>timestamp\<close> of \<open>SignedCallbackData\<close> carries the prefix \<open>cb\<close>.
\<close>

type_synonym hmac_fn = "string \<Rightarrow> string \<Rightarrow> string"

definition CALLBACK_MAX_AGE_SECONDS :: int where
  "CALLBACK_MAX_AGE_SECONDS = 300"

record SignedCallbackData =
  payload :: string
  cb_timestamp :: int
  signature :: string

definition sign :: "hmac_fn \<Rightarrow> string \<Rightarrow> int \<Rightarrow> string \<Rightarrow> string" where
  "sign mac key now pl =
     (let ts = now;
          message = pl @ ''|'' @ str_int ts;
          sig = mac key message;
          sig_b64 = rstrip_char CHR ''='' (urlsafe_b64encode (take 16 sig))
      in pl @ ''|'' @ str_int ts @ ''|'' @ sig_b64)"

text \<open>The padding that \<open>verify\<close> puts back on a received signature.\<close>

definition sig_padded :: "string \<Rightarrow> string" where
  "sig_padded sg =
     (if length sg mod 4 \<noteq> 0 then sg @ replicate (4 - length sg mod 4) CHR ''='' else sg)"

text \<open>
  \<open>verify\<close>: \<open>None\<close> is the result for a token that is malformed, expired, dated in the
  future or wrongly signed. The \<open>ValueError\<close> of \<open>int\<close> and of the Base64 decoder are
  caught by the source and give \<open>None\<close> as well.
\<close>

definition verify ::
  "hmac_fn \<Rightarrow> string \<Rightarrow> int \<Rightarrow> string \<Rightarrow> int \<Rightarrow> SignedCallbackData option" where
  "verify mac key now signed_data max_age_secs =
     (case rsplit CHR ''|'' 2 signed_data of
        [pl, timestamp_str, sg] \<Rightarrow>
          (case int_of_str timestamp_str of
             Inl _ \<Rightarrow> None
           | Inr ts \<Rightarrow>
               if now - ts > max_age_secs then None
               else if ts > now + 60 then None
               else
                 let message = pl @ ''|'' @ timestamp_str;
                     expected = mac key message
                 in (case urlsafe_b64decode (sig_padded sg) of
                       Inl _ \<Rightarrow> None
                     | Inr received \<Rightarrow>
                         if take 16 expected \<noteq> received then None
                         else Some \<lparr>payload = pl, cb_timestamp = ts, signature = sg\<rparr>))
      | _ \<Rightarrow> None)"

text \<open>
  A stand-in for HMAC-SHA256 with a 32-byte result, used only to run the signing functions
  on examples; every theorem below holds for any function \<open>mac\<close>.
\<close>

definition stub_mac :: hmac_fn where
  "stub_mac key msg = take 32 (rev msg @ key @ replicate 32 CHR ''#'')"

section \<open>Audit log (audit/logger.py)\<close>

subsection \<open>JSON values and the lines of a log file\<close>

text \<open>
  The values that \<open>json.loads\<close> returns and \<open>json.dumps\<close> accepts, objects with their
  members in order (floating-point numbers are left out). The canonical encoding
  \<open>json.dumps(d, separators=(',', ':'), sort_keys=True)\<close>, HMAC-SHA256 and the size in
  bytes that \<open>stat\<close> reports for a file are library functions; the audit functions take
  them together as an environment.
\<close>

datatype json =
  JNull | JBool bool | JInt int | JStr string | JArr "json list" | JObj "(string \<times> json) list"

text \<open>
  A log file is the list of its lines, and a line is what the verifier's
  \<open>json.loads(line)\<close> makes of it: a blank line, a line that raises
  \<open>JSONDecodeError\<close>, or a JSON object, given by its member \<open>event\<close> (\<open>{}\<close> when
  absent) and its members \<open>hmac\<close> and \<open>prev_hash\<close> (\<open>""\<close> when absent), both strings.
  The line that \<open>log\<close> writes, \<open>json.dumps(log_entry)\<close>, is read back as that entry.
  Writing never fails in the model (the source logs an \<open>OSError\<close> and goes on).
\<close>

record log_entry =
  le_event :: json
  le_hmac :: string
  le_prev_hash :: string

datatype line = Blank | Malformed | Entry log_entry

record audit_env =
  env_mac :: hmac_fn
  env_dumps :: "json \<Rightarrow> string"
  env_size :: "line list \<Rightarrow> int"

text \<open>
  The paths of a logger: its log file and the rotated files \<open>.jsonl.1\<close>, \<open>.jsonl.2\<close>,
  and so on. A file system maps the paths that exist to their contents.
\<close>

datatype path = LogPath | Rotated int

type_synonym files = "path \<Rightarrow> line list option"

subsection \<open>Events\<close>

datatype EventType =
    PERMISSION_REQUESTED | PERMISSION_APPROVED | PERMISSION_DENIED
  | PERMISSION_AUTO_APPROVED | PERMISSION_TIMEOUT | POLICY_EVALUATED
  | POLICY_MATCHED | PHASE_STARTED | PHASE_COMPLETED
  | PHASE_TRANSITION | SIMSTIM_STARTED | SIMSTIM_STOPPED
  | LOA_STARTED | LOA_STOPPED | LOA_EXIT
  | TELEGRAM_CONNECTED | TELEGRAM_DISCONNECTED | TELEGRAM_RECONNECTED
  | TELEGRAM_MESSAGE_SENT | TELEGRAM_CALLBACK | ERROR
  | WARNING

fun EventType_value :: "EventType \<Rightarrow> string" where
  "EventType_value PERMISSION_REQUESTED = ''permission_requested''"
| "EventType_value PERMISSION_APPROVED = ''permission_approved''"
| "EventType_value PERMISSION_DENIED = ''permission_denied''"
| "EventType_value PERMISSION_AUTO_APPROVED = ''permission_auto_approved''"
| "EventType_value PERMISSION_TIMEOUT = ''permission_timeout''"
| "EventType_value POLICY_EVALUATED = ''policy_evaluated''"
| "EventType_value POLICY_MATCHED = ''policy_matched''"
| "EventType_value PHASE_STARTED = ''phase_started''"
| "EventType_value PHASE_COMPLETED = ''phase_completed''"
| "EventType_value PHASE_TRANSITION = ''phase_transition''"
| "EventType_value SIMSTIM_STARTED = ''simstim_started''"
| "EventType_value SIMSTIM_STOPPED = ''simstim_stopped''"
| "EventType_value LOA_STARTED = ''loa_started''"
| "EventType_value LOA_STOPPED = ''loa_stopped''"
| "EventType_value LOA_EXIT = ''loa_exit''"
| "EventType_value TELEGRAM_CONNECTED = ''telegram_connected''"
| "EventType_value TELEGRAM_DISCONNECTED = ''telegram_disconnected''"
| "EventType_value TELEGRAM_RECONNECTED = ''telegram_reconnected''"
| "EventType_value TELEGRAM_MESSAGE_SENT = ''telegram_message_sent''"
| "EventType_value TELEGRAM_CALLBACK = ''telegram_callback''"
| "EventType_value ERROR = ''error''"
| "EventType_value WARNING = ''warning''"

text \<open>
  \<open>AuditEvent\<close>, its fields with the prefix \<open>ev\<close>. The time stamp is kept as the text
  that \<open>isoformat()\<close> gives.
\<close>

record AuditEvent =
  ev_event_type :: EventType
  ev_timestamp :: string
  ev_session_id :: string
  ev_request_id :: "string option"
  ev_user_id :: "int option"
  ev_action :: "string option"
  ev_target :: "string option"
  ev_risk_level :: "string option"
  ev_policy_name :: "string option"
  ev_phase :: "string option"
  ev_metadata :: "(string \<times> json) list"
  ev_error :: "string option"

text \<open>An optional text field enters the dictionary when it is set and not empty.\<close>

definition opt_member :: "string \<Rightarrow> string option \<Rightarrow> (string \<times> json) list" where
  "opt_member k v = (case v of None \<Rightarrow> [] | Some s \<Rightarrow> if s = [] then [] else [(k, JStr s)])"

definition to_dict :: "AuditEvent \<Rightarrow> json" where
  "to_dict e =
     JObj ([(''timestamp'', JStr (ev_timestamp e)),
            (''event_type'', JStr (EventType_value (ev_event_type e))),
            (''session_id'', JStr (ev_session_id e))]
           @ opt_member ''request_id'' (ev_request_id e)
           @ (case ev_user_id e of None \<Rightarrow> [] | Some u \<Rightarrow> [(''user_id'', JInt u)])
           @ opt_member ''action'' (ev_action e)
           @ opt_member ''target'' (ev_target e)
           @ opt_member ''risk_level'' (ev_risk_level e)
           @ opt_member ''policy_name'' (ev_policy_name e)
           @ opt_member ''phase'' (ev_phase e)
           @ (if ev_metadata e = [] then [] else [(''metadata'', JObj (ev_metadata e))])
           @ opt_member ''error'' (ev_error e))"

subsection \<open>The logger\<close>

text \<open>
  The state of an \<open>AuditLogger\<close>; its fields carry the prefix \<open>al\<close>. A key is given as
  bytes or as a hexadecimal string.
\<close>

record AuditLogger =
  al_session_id :: string
  al_max_size :: int
  al_rotate_count :: int
  al_event_count :: int
  al_hmac_key :: string
  al_last_hash :: string

datatype key_arg = KeyBytes string | KeyHex string

definition key_bytes :: "key_arg \<Rightarrow> py_error + string" where
  "key_bytes k = (case k of KeyBytes b \<Rightarrow> Inr b | KeyHex h \<Rightarrow> fromhex h)"

text \<open>
  \<open>_init_hmac_key\<close>: the given key, else the environment variable
  \<open>SIMSTIM_AUDIT_KEY\<close> (here \<open>env_key\<close>), else fresh random bytes (here \<open>random_key\<close>).
\<close>

definition init_hmac_key :: "key_arg option \<Rightarrow> string option \<Rightarrow> string \<Rightarrow> py_error + string" where
  "init_hmac_key k env_key random_key =
     (case k of
        Some given \<Rightarrow> key_bytes given
      | None \<Rightarrow>
          (case env_key of
             Some h \<Rightarrow> if h = [] then Inr random_key else fromhex h
           | None \<Rightarrow> Inr random_key))"

definition AuditLogger_init ::
  "string \<Rightarrow> int \<Rightarrow> int \<Rightarrow> key_arg option \<Rightarrow> string option \<Rightarrow> string
     \<Rightarrow> py_error + AuditLogger" where
  "AuditLogger_init session max_file_size_mb rotate_cnt k env_key random_key =
     (case init_hmac_key k env_key random_key of
        Inl e \<Rightarrow> Inl e
      | Inr key \<Rightarrow>
          Inr \<lparr>al_session_id = session, al_max_size = max_file_size_mb * 1024 * 1024,
               al_rotate_count = rotate_cnt, al_event_count = 0, al_hmac_key = key,
               al_last_hash = []\<rparr>)"

text \<open>
  \<open>_rotate\<close>: the oldest rotated file is removed, the others move up by one from the
  highest number down (a rename replaces its target), and the log file becomes
  \<open>.jsonl.1\<close>. Nothing else of the logger changes.
\<close>

definition rename :: "path \<Rightarrow> path \<Rightarrow> files \<Rightarrow> files" where
  "rename src dst fs =
     (case fs src of None \<Rightarrow> fs | Some content \<Rightarrow> (fs(src := None))(dst \<mapsto> content))"

definition AuditLogger_rotate :: "AuditLogger \<Rightarrow> files \<Rightarrow> files" where
  "AuditLogger_rotate lg fs =
     (let fs1 = fs(Rotated (al_rotate_count lg) := None);
          fs2 = fold (\<lambda>i. rename (Rotated i) (Rotated (i + 1)))
                  (rev [1 .. al_rotate_count lg - 1]) fs1
      in rename LogPath (Rotated 1) fs2)"

definition maybe_rotate :: "audit_env \<Rightarrow> AuditLogger \<Rightarrow> files \<Rightarrow> files" where
  "maybe_rotate env lg fs =
     (case fs LogPath of
        None \<Rightarrow> fs
      | Some ls \<Rightarrow> if env_size env ls \<ge> al_max_size lg then AuditLogger_rotate lg fs else fs)"

text \<open>
  \<open>log\<close>: the signature is the HMAC of the previous signature followed by the
  canonical event, in hexadecimal; the entry records it with the previous signature; the
  logger keeps the new signature, decoded, for the next entry.
\<close>

definition AuditLogger_log ::
  "audit_env \<Rightarrow> AuditEvent \<Rightarrow> files \<times> AuditLogger \<Rightarrow> py_error + (files \<times> AuditLogger)" where
  "AuditLogger_log env event st =
     (let fs = fst st; lg = snd st;
          event1 = (if ev_session_id event = [] then event\<lparr>ev_session_id := al_session_id lg\<rparr>
                    else event);
          fs1 = maybe_rotate env lg fs;
          event_dict = to_dict event1;
          event_json = env_dumps env event_dict;
          sig = hex (env_mac env (al_hmac_key lg) (al_last_hash lg @ event_json));
          entry = \<lparr>le_event = event_dict, le_hmac = sig,
                        le_prev_hash = (if al_last_hash lg \<noteq> [] then hex (al_last_hash lg) else [])\<rparr>;
          fs2 = fs1(LogPath \<mapsto> (case fs1 LogPath of None \<Rightarrow> [] | Some ls \<Rightarrow> ls) @ [Entry entry])
      in (case fromhex sig of
            Inl e \<Rightarrow> Inl e
          | Inr new_hash \<Rightarrow>
              Inr (fs2, lg\<lparr>al_last_hash := new_hash, al_event_count := al_event_count lg + 1\<rparr>)))"

text \<open>A sequence of \<open>log\<close> calls; an exception ends it.\<close>

fun log_all ::
  "audit_env \<Rightarrow> AuditEvent list \<Rightarrow> files \<times> AuditLogger \<Rightarrow> py_error + (files \<times> AuditLogger)" where
  "log_all env [] st = Inr st"
| "log_all env (e # es) st =
     (case AuditLogger_log env e st of Inl err \<Rightarrow> Inl err | Inr st1 \<Rightarrow> log_all env es st1)"

subsection \<open>The verifier\<close>

text \<open>
  The problems that \<open>verify_audit_log\<close> reports, each with its line number: a broken
  chain (with the first eight characters of the entry's \<open>prev_hash\<close> and of the running
  one), an invalid signature, malformed JSON, and a stored signature that is no
  hexadecimal text.
\<close>

datatype verify_error =
  HashChainBroken nat string string
| InvalidHMAC nat
| MalformedJSON nat
| InvalidValue nat

definition is_ascii :: "string \<Rightarrow> bool" where
  "is_ascii s \<longleftrightarrow> (\<forall>c\<in>set s. (of_char c :: nat) < 128)"

text \<open>
  The loop over the lines, numbered from \<open>line_num\<close>, with the running previous hash and
  the errors so far. \<open>hmac.compare_digest\<close> raises \<open>TypeError\<close> on a string that is not
  ASCII, which the source does not catch; the \<open>ValueError\<close> of \<open>bytes.fromhex\<close> is caught
  and reported, and leaves the running hash as it was.
\<close>

fun verify_lines ::
  "audit_env \<Rightarrow> string \<Rightarrow> nat \<Rightarrow> line list \<Rightarrow> string \<times> verify_error list
     \<Rightarrow> py_error + (string \<times> verify_error list)" where
  "verify_lines env key line_num [] st = Inr st"
| "verify_lines env key line_num (Blank # ls) st = verify_lines env key (Suc line_num) ls st"
| "verify_lines env key line_num (Malformed # ls) st =
     verify_lines env key (Suc line_num) ls (fst st, snd st @ [MalformedJSON line_num])"
| "verify_lines env key line_num (Entry entry # ls) st =
     (let prev_hash = fst st; errors = snd st;
          event_dict = le_event entry;
          claimed_sig = le_hmac entry;
          expected_prev = le_prev_hash entry;
          actual_prev = (if prev_hash \<noteq> [] then hex prev_hash else []);
          errors1 = (if actual_prev \<noteq> expected_prev
                     then errors @ [HashChainBroken line_num (take 8 expected_prev)
                                      (take 8 actual_prev)]
                     else errors);
          event_json = env_dumps env event_dict;
          computed_sig = hex (env_mac env key (prev_hash @ event_json))
      in if \<not> is_ascii claimed_sig then Inl TypeError
         else
           let errors2 = (if computed_sig \<noteq> claimed_sig
                          then errors1 @ [InvalidHMAC line_num] else errors1)
           in if claimed_sig = [] then verify_lines env key (Suc line_num) ls ([], errors2)
              else
                (case fromhex claimed_sig of
                   Inl _ \<Rightarrow>
                     verify_lines env key (Suc line_num) ls
                       (prev_hash, errors2 @ [InvalidValue line_num])
                 | Inr b \<Rightarrow> verify_lines env key (Suc line_num) ls (b, errors2)))"

definition verify_audit_log ::
  "audit_env \<Rightarrow> files \<Rightarrow> key_arg \<Rightarrow> py_error + (bool \<times> verify_error list)" where
  "verify_audit_log env fs hmac_key =
     (case key_bytes hmac_key of
        Inl e \<Rightarrow> Inl e
      | Inr key \<Rightarrow>
          (case fs LogPath of
             None \<Rightarrow> Inr (True, [])
           | Some ls \<Rightarrow>
               (case verify_lines env key 1 ls ([], []) of
                  Inl e \<Rightarrow> Inl e
                | Inr st \<Rightarrow> Inr (snd st = [], snd st))))"

subsection \<open>Auxiliary notions for the results on the audit log\<close>

text \<open>
  The entry that \<open>log\<close> writes for an event dictionary \<open>d\<close> when the logger's last
  hash is \<open>prev\<close>; the lines of the log file, none when it does not exist; the event
  with the logger's session id filled in; and the state in which the file verifies
  without error from its first line and the verifier's running hash at its end is the
  logger's last hash.
\<close>

definition signed_entry :: "audit_env \<Rightarrow> string \<Rightarrow> string \<Rightarrow> json \<Rightarrow> log_entry" where
  "signed_entry env key prev d =
     \<lparr>le_event = d, le_hmac = hex (env_mac env key (prev @ env_dumps env d)),
      le_prev_hash = (if prev \<noteq> [] then hex prev else [])\<rparr>"

definition current :: "files \<Rightarrow> line list" where
  "current fs = (case fs LogPath of None \<Rightarrow> [] | Some ls \<Rightarrow> ls)"

definition with_session :: "AuditLogger \<Rightarrow> AuditEvent \<Rightarrow> AuditEvent" where
  "with_session lg event =
     (if ev_session_id event = [] then event\<lparr>ev_session_id := al_session_id lg\<rparr> else event)"

definition chain_ok :: "audit_env \<Rightarrow> files \<times> AuditLogger \<Rightarrow> bool" where
  "chain_ok env st \<longleftrightarrow>
     verify_lines env (al_hmac_key (snd st)) 1 (current (fst st)) ([], [])
       = Inr (al_last_hash (snd st), [])"

text \<open>
  Stand-ins for the library functions, used only to run the audit functions on examples:
  a compact JSON printer without escapes and sorting, the stand-in MAC, and 200 bytes
  for every line of a file. Two events to log.
\<close>

fun stub_dumps :: "json \<Rightarrow> string" where
  "stub_dumps JNull = ''null''"
| "stub_dumps (JBool b) = (if b then ''true'' else ''false'')"
| "stub_dumps (JInt i) = str_int i"
| "stub_dumps (JStr s) = [CHR 0x22] @ s @ [CHR 0x22]"
| "stub_dumps (JArr xs) = ''['' @ join CHR '','' (map stub_dumps xs) @ '']''"
| "stub_dumps (JObj kvs) =
     ''{'' @ join CHR '','' (map (\<lambda>kv. [CHR 0x22] @ fst kv @ [CHR 0x22] @ '':'' @ stub_dumps (snd kv)) kvs)
     @ ''}''"

definition stub_env :: audit_env where
  "stub_env = \<lparr>env_mac = stub_mac, env_dumps = stub_dumps, env_size = (\<lambda>ls. 200 * int (length ls))\<rparr>"

definition event1 :: AuditEvent where
  "event1 = \<lparr>ev_event_type = SIMSTIM_STARTED, ev_timestamp = ''2025-01-01T00:00:00+00:00'',
     ev_session_id = '''', ev_request_id = None, ev_user_id = None, ev_action = None,
     ev_target = None, ev_risk_level = None, ev_policy_name = None, ev_phase = None,
     ev_metadata = [], ev_error = None\<rparr>"

definition event2 :: AuditEvent where
  "event2 = event1\<lparr>ev_event_type := PERMISSION_APPROVED, ev_request_id := Some ''ab12cd34'',
     ev_user_id := Some 42\<rparr>"


subsection \<open>The verifier as the specification words it\<close>

text \<open>
  The same loop, but with the signature recomputed over the record's own stored
  \<open>prev_hash\<close> member (the bytes it encodes) instead of the running hash. It is used
  only to compare the two readings; a stored \<open>prev_hash\<close> that is not hexadecimal is
  reported as an invalid value.
\<close>

fun verify_lines_as_specified ::
  "audit_env \<Rightarrow> string \<Rightarrow> nat \<Rightarrow> line list \<Rightarrow> string \<times> verify_error list
     \<Rightarrow> py_error + (string \<times> verify_error list)" where
  "verify_lines_as_specified env key line_num [] st = Inr st"
| "verify_lines_as_specified env key line_num (Blank # ls) st =
     verify_lines_as_specified env key (Suc line_num) ls st"
| "verify_lines_as_specified env key line_num (Malformed # ls) st =
     verify_lines_as_specified env key (Suc line_num) ls
       (fst st, snd st @ [MalformedJSON line_num])"
| "verify_lines_as_specified env key line_num (Entry entry # ls) st =
     (let prev_hash = fst st; errors = snd st;
          event_dict = le_event entry;
          claimed_sig = le_hmac entry;
          expected_prev = le_prev_hash entry;
          actual_prev = (if prev_hash \<noteq> [] then hex prev_hash else []);
          errors1 = (if actual_prev \<noteq> expected_prev
                     then errors @ [HashChainBroken line_num (take 8 expected_prev)
                                      (take 8 actual_prev)]
                     else errors);
          event_json = env_dumps env event_dict
      in (case fromhex expected_prev of
            Inl _ \<Rightarrow>
              verify_lines_as_specified env key (Suc line_num) ls
                (prev_hash, errors1 @ [InvalidValue line_num])
          | Inr stored_prev \<Rightarrow>
              let computed_sig = hex (env_mac env key (stored_prev @ event_json))
              in if \<not> is_ascii claimed_sig then Inl TypeError
                 else
                   let errors2 = (if computed_sig \<noteq> claimed_sig
                                  then errors1 @ [InvalidHMAC line_num] else errors1)
                   in if claimed_sig = []
                      then verify_lines_as_specified env key (Suc line_num) ls ([], errors2)
                      else
                        (case fromhex claimed_sig of
                           Inl _ \<Rightarrow>
                             verify_lines_as_specified env key (Suc line_num) ls
                               (prev_hash, errors2 @ [InvalidValue line_num])
                         | Inr b \<Rightarrow>
                             verify_lines_as_specified env key (Suc line_num) ls
                               (b, errors2))))"

text \<open>
  A stand-in for the MAC that is injective in the message, as HMAC-SHA256 is for all
  practical purposes, and a chain of three entries signed with it as \<open>log\<close> signs
  them.
\<close>

definition plain_mac :: hmac_fn where
  "plain_mac key msg = key @ msg"

definition plain_env :: audit_env where
  "plain_env = stub_env\<lparr>env_mac := plain_mac\<rparr>"

definition dict1 :: json where
  "dict1 = JObj [(''event_type'', JStr ''simstim_started''), (''session_id'', JStr ''s1'')]"

definition dict2 :: json where
  "dict2 = JObj [(''event_type'', JStr ''permission_approved''), (''session_id'', JStr ''s1''),
     (''user_id'', JInt 42)]"

definition dict3 :: json where
  "dict3 = JObj [(''event_type'', JStr ''simstim_stopped''), (''session_id'', JStr ''s1'')]"

definition sig1 :: string where
  "sig1 = plain_mac ''k'' (stub_dumps dict1)"

definition sig2 :: string where
  "sig2 = plain_mac ''k'' (sig1 @ stub_dumps dict2)"

definition entry1 :: log_entry where
  "entry1 = signed_entry plain_env ''k'' [] dict1"

definition entry2 :: log_entry where
  "entry2 = signed_entry plain_env ''k'' sig1 dict2"

definition entry3 :: log_entry where
  "entry3 = signed_entry plain_env ''k'' sig2 dict3"

text \<open>A forged signature: 64 hexadecimal zeros, that is 32 zero bytes.\<close>

definition forged_sig :: string where
  "forged_sig = replicate 64 CHR ''0''"

section \<open>Offline queue: results\<close>

lemma prune_old_events_fst:
  "fst (prune_old_events now q) =
     q\<lparr>queue := filter (\<lambda>e. now - timestamp e < real_of_int (max_age q)) (queue q)\<rparr>"
  by (simp add: prune_old_events_def Let_def)

text \<open>
  C10: \<open>enqueue\<close> returns \<open>True\<close>, and never \<open>False\<close>: the events that are not too
  old are kept, the oldest of them is dropped when they are at least \<open>max_size\<close>, and
  the new event is appended last. This holds in every state but one: when no event is
  kept and \<open>max_size\<close> is not positive, the empty queue already counts as full, and the
  unguarded \<open>pop(0)\<close> raises \<open>IndexError\<close> before anything is appended. For a positive
  \<open>max_size\<close> the result is therefore always \<open>True\<close>.
\<close>

theorem enqueue_true_unless_pop_fails:
  "enqueue now event q =
     (let kept = filter (\<lambda>e. now - timestamp e < real_of_int (max_age q)) (queue q) in
      if kept = [] \<and> max_size q \<le> 0 then Inl IndexError
      else Inr (q\<lparr>queue := (if int (length kept) \<ge> max_size q then tl kept else kept)
                              @ [event]\<rparr>, True))"
proof -
  let ?kept = "filter (\<lambda>e. now - timestamp e < real_of_int (max_age q)) (queue q)"
  have q1: "fst (prune_old_events now q) = q\<lparr>queue := ?kept\<rparr>"
    by (rule prune_old_events_fst)
  show ?thesis
  proof (cases ?kept)
    case Nil
    then show ?thesis
      by (simp add: enqueue_def Let_def q1 pop0_def)
  next
    case (Cons x rest)
    then show ?thesis
      by (simp add: enqueue_def Let_def q1 pop0_def)
  qed
qed

text \<open>
  A full queue of capacity 1 drops its only event for the new one; so does a queue of
  capacity 0 that was handed an event.
\<close>

theorem enqueue_true_unless_pop_fails_witness:
  "enqueue 10 \<lparr>event_type = STATUS_MESSAGE, timestamp = 10, data = (), priority = 0\<rparr>
       ((OfflineQueue_init 1 3600)
          \<lparr>queue := [\<lparr>event_type = GENERIC_MESSAGE, timestamp = 5, data = (), priority = 0\<rparr>]\<rparr>)
     = Inr ((OfflineQueue_init 1 3600)
          \<lparr>queue := [\<lparr>event_type = STATUS_MESSAGE, timestamp = 10, data = (), priority = 0\<rparr>]\<rparr>,
            True)
   \<and> enqueue 10 \<lparr>event_type = STATUS_MESSAGE, timestamp = 10, data = (), priority = 0\<rparr>
       ((OfflineQueue_init 0 3600)
          \<lparr>queue := [\<lparr>event_type = GENERIC_MESSAGE, timestamp = 5, data = (), priority = 0\<rparr>]\<rparr>)
     = Inr ((OfflineQueue_init 0 3600)
          \<lparr>queue := [\<lparr>event_type = STATUS_MESSAGE, timestamp = 10, data = (), priority = 0\<rparr>]\<rparr>,
            True)"
  using enqueue_true_unless_pop_fails [of 10
      "\<lparr>event_type = STATUS_MESSAGE, timestamp = 10, data = (), priority = 0\<rparr>"
      "(OfflineQueue_init 1 3600)
          \<lparr>queue := [\<lparr>event_type = GENERIC_MESSAGE, timestamp = 5, data = (), priority = 0\<rparr>]\<rparr>"]
    enqueue_true_unless_pop_fails [of 10
      "\<lparr>event_type = STATUS_MESSAGE, timestamp = 10, data = (), priority = 0\<rparr>"
      "(OfflineQueue_init 0 3600)
          \<lparr>queue := [\<lparr>event_type = GENERIC_MESSAGE, timestamp = 5, data = (), priority = 0\<rparr>]\<rparr>"]
  by (simp add: OfflineQueue_init_def)

text \<open>
  The failing call of C10: the first \<open>enqueue\<close> on a queue built with \<open>max_size = 0\<close>.
\<close>

theorem enqueue_max_size_zero_raises:
  "enqueue 0 \<lparr>event_type = GENERIC_MESSAGE, timestamp = 0, data = (), priority = 0\<rparr>
     (OfflineQueue_init 0 3600) = Inl IndexError"
  by (simp add: enqueue_def OfflineQueue_init_def prune_old_events_def pop0_def)

section \<open>Rate limiter: results\<close>

lemma user_state_put [simp]: "user_state (put_user_state rl u st) u = st"
  by (simp add: user_state_def put_user_state_def)

text \<open>
  C8: \<open>record_denial\<close> adds one to the identity's denial count, and once the new count
  has reached the threshold it sets the backoff expiry to the clock reading plus
  \<open>min (base * 2 ^ (count - threshold)) max\<close> (below the threshold the expiry is left as
  it was); one \<open>record_approval\<close> sets the denial count to zero and clears the expiry.
\<close>

theorem record_denial_backoff:
  "denial_count (user_state (record_denial now1 now2 u rl) u)
     = denial_count (user_state rl u) + 1
   \<and> backoff_until (user_state (record_denial now1 now2 u rl) u)
     = (if denial_count (user_state rl u) + 1 \<ge> denial_threshold rl
        then Some (now2 +
               min (denial_backoff_base rl *
                      2 ^ nat (denial_count (user_state rl u) + 1 - denial_threshold rl))
                   (denial_backoff_max rl))
        else backoff_until (user_state rl u))
   \<and> denial_count (user_state (record_approval u rl) u) = 0
   \<and> backoff_until (user_state (record_approval u rl) u) = None"
  by (simp add: record_denial_def record_approval_def Let_def)

text \<open>
  The defaults of the source (base 5 s, ceiling 300 s, threshold 3): a third denial starts
  a 5 s backoff, a tenth is capped at 300 s, and an approval clears it.
\<close>

theorem record_denial_backoff_witness:
  "denial_count (user_state (record_denial 100 100 7 (denied_before 2)) 7) = 3
   \<and> backoff_until (user_state (record_denial 100 100 7 (denied_before 2)) 7) = Some 105
   \<and> backoff_until (user_state (record_denial 100 100 7 (denied_before 1)) 7) = None
   \<and> backoff_until (user_state (record_denial 100 100 7 (denied_before 9)) 7) = Some 400
   \<and> denial_count (user_state (record_approval 7 (denied_before 9)) 7) = 0
   \<and> backoff_until (user_state (record_approval 7 (record_denial 100 100 7 (denied_before 9))) 7)
       = None"
  using record_denial_backoff [of 100 100 7 "denied_before 2"]
    record_denial_backoff [of 100 100 7 "denied_before 1"]
    record_denial_backoff [of 100 100 7 "denied_before 9"]
    record_denial_backoff [of 100 100 7 "record_denial 100 100 7 (denied_before 9)"]
  by (simp add: denied_before_def user_state_def RateLimiter_init_def)

section \<open>Policy engine: results\<close>

lemma list_index_append:
  "x \<notin> set xs \<Longrightarrow> list_index (xs @ x # ys) x = Inr (length xs)"
  by (induction xs) auto

lemma risk_acceptable_levels:
  "risk_acceptable (RiskLevel_value m) (RiskLevel_value r)
     \<longleftrightarrow> RiskLevel_rank r \<le> RiskLevel_rank m"
  by (cases m; cases r) (simp_all add: risk_acceptable_def RISK_ORDER_def lower_def)

lemma evaluate_policies_skip:
  assumes "\<forall>q\<in>set pre. \<not> (action q = a \<and> pattern_matches fnm (pattern q) t)"
  shows "evaluate_policies fnm (pre @ rest) a t r = evaluate_policies fnm rest a t r"
  using assms by (induction pre) auto

text \<open>
  C6: let \<open>p\<close> be the first enabled rule of the configured list whose action is the
  request's and whose pattern matches the target (no enabled rule before it has both).
  Then \<open>p\<close> alone decides: the result is the auto-approval by \<open>p\<close> when the request's
  risk is at most \<open>p\<close>'s maximum on the scale low, medium, high, critical, and the
  risk-exceeded result of \<open>p\<close> otherwise, whatever rules follow \<open>p\<close> in the list.
\<close>

theorem evaluate_first_match_decides:
  assumes "policies eng = filter enabled (pre @ p # post)"
    and "enabled p"
    and "action p = ActionType_value act"
    and "pattern_matches fnm (pattern p) tgt"
    and "\<forall>q\<in>set pre. \<not> (enabled q \<and> action q = ActionType_value act
                          \<and> pattern_matches fnm (pattern q) tgt)"
    and "max_risk p = RiskLevel_value m"
  shows "match (fst (evaluate fnm now eng act tgt risk)) =
           (if RiskLevel_rank risk \<le> RiskLevel_rank m
            then PolicyMatch_auto_approved p (''Matched policy: '' @ name p)
            else PolicyMatch_risk_exceeded p
                   (''Risk '' @ RiskLevel_value risk @ '' exceeds policy max '' @ max_risk p))"
proof -
  let ?a = "ActionType_value act" and ?r = "RiskLevel_value risk"
  have pol: "policies eng = filter enabled pre @ p # filter enabled post"
    using assms(1,2) by simp
  have "\<forall>q\<in>set (filter enabled pre). \<not> (action q = ?a \<and> pattern_matches fnm (pattern q) tgt)"
    using assms(5) by auto
  then have "evaluate_policies fnm (policies eng) ?a tgt ?r
      = evaluate_policies fnm (p # filter enabled post) ?a tgt ?r"
    unfolding pol by (rule evaluate_policies_skip)
  also have "\<dots> = (if risk_acceptable (max_risk p) ?r
            then PolicyMatch_auto_approved p (''Matched policy: '' @ name p)
            else PolicyMatch_risk_exceeded p (''Risk '' @ ?r @ '' exceeds policy max '' @ max_risk p))"
    using assms(3,4) by simp
  finally show ?thesis
    by (simp add: evaluate_def Let_def assms(6) risk_acceptable_levels)
qed

lemma src_ts_matches:
  "pattern_matches fnmatch ''src/**/*.ts'' ''src/components/Button.ts''"
  by (simp add: pattern_matches_def fnmatch_def)

text \<open>
  A high-risk edit meets the strict rule first and is refused by it, although the lax
  rule behind it would approve; a low-risk edit is approved by the strict rule. The
  disabled rule in front is passed over.
\<close>

theorem evaluate_first_match_decides_witness:
  "match (fst (evaluate fnmatch 0 (PolicyEngine_init [off_rule, strict_rule, lax_rule])
                 FILE_EDIT ''src/components/Button.ts'' HIGH))
     = PolicyMatch_risk_exceeded strict_rule ''Risk high exceeds policy max low''
   \<and> match (fst (evaluate fnmatch 0 (PolicyEngine_init [off_rule, strict_rule, lax_rule])
                 FILE_EDIT ''src/components/Button.ts'' LOW))
     = PolicyMatch_auto_approved strict_rule ''Matched policy: strict''"
proof -
  have pol: "policies (PolicyEngine_init [off_rule, strict_rule, lax_rule])
      = filter enabled ([off_rule] @ strict_rule # [lax_rule])"
    by (simp add: PolicyEngine_init_def)
  have en: "enabled strict_rule" by (simp add: strict_rule_def)
  have act: "action strict_rule = ActionType_value FILE_EDIT" by (simp add: strict_rule_def)
  have pat: "pattern_matches fnmatch (pattern strict_rule) ''src/components/Button.ts''"
    using src_ts_matches by (simp add: strict_rule_def)
  have before: "\<forall>q\<in>set [off_rule]. \<not> (enabled q \<and> action q = ActionType_value FILE_EDIT
      \<and> pattern_matches fnmatch (pattern q) ''src/components/Button.ts'')"
    by (simp add: off_rule_def)
  have mx: "max_risk strict_rule = RiskLevel_value LOW" by (simp add: strict_rule_def)
  note fm = evaluate_first_match_decides [OF pol en act pat before mx]
  from fm [of 0 HIGH] fm [of 0 LOW] show ?thesis
    by (simp add: strict_rule_def)
qed

text \<open>
  C9: a pattern with one brace group (no brace before the opening one, no closing brace
  inside the group) matches a target exactly when, for one of the comma-separated
  alternatives (stripped of surrounding blanks), the glob made of prefix, alternative and
  suffix matches that target. With Python's \<open>fnmatch\<close> as the glob matcher,
  \<open>*.{ts,tsx}\<close> matches \<open>index.ts\<close> and \<open>Button.tsx\<close> and does not match \<open>script.py\<close>.
\<close>

theorem pattern_matches_brace_alternation:
  "(\<forall>prefix body suffix tgt.
      CHR ''{'' \<notin> set prefix \<and> CHR ''}'' \<notin> set prefix \<and> CHR ''}'' \<notin> set body \<longrightarrow>
      pattern_matches fnm (prefix @ ''{'' @ body @ ''}'' @ suffix) tgt
        = (\<exists>alt \<in> set (split_on CHR '','' body). fnm tgt (prefix @ strip alt @ suffix)))
   \<and> pattern_matches fnmatch ''*.{ts,tsx}'' ''index.ts''
   \<and> pattern_matches fnmatch ''*.{ts,tsx}'' ''Button.tsx''
   \<and> \<not> pattern_matches fnmatch ''*.{ts,tsx}'' ''script.py''"
proof -
  have general: "pattern_matches fnm (prefix @ ''{'' @ body @ ''}'' @ suffix) tgt
        = (\<exists>alt \<in> set (split_on CHR '','' body). fnm tgt (prefix @ strip alt @ suffix))"
    if pre: "CHR ''{'' \<notin> set prefix" "CHR ''}'' \<notin> set prefix" and body: "CHR ''}'' \<notin> set body"
    for prefix body suffix tgt
  proof -
    let ?pat = "prefix @ ''{'' @ body @ ''}'' @ suffix"
    have s: "list_index ?pat CHR ''{'' = Inr (length prefix)"
      using list_index_append [OF pre(1)] by simp
    have "CHR ''}'' \<notin> set (prefix @ ''{'' @ body)" using pre body by simp
    from list_index_append [OF this, of suffix]
    have e: "list_index ?pat CHR ''}'' = Inr (length prefix + 1 + length body)"
      by simp
    show ?thesis
      unfolding pattern_matches_def s e
      by (simp add: slice_def Let_def list_ex_iff)
  qed
  have ex1: "pattern_matches fnmatch ''*.{ts,tsx}'' ''index.ts''"
    by (simp add: pattern_matches_def fnmatch_def slice_def strip_def isspace_def)
  have ex2: "pattern_matches fnmatch ''*.{ts,tsx}'' ''Button.tsx''"
    by (simp add: pattern_matches_def fnmatch_def slice_def strip_def isspace_def)
  have ex3: "\<not> pattern_matches fnmatch ''*.{ts,tsx}'' ''script.py''"
    by (simp add: pattern_matches_def fnmatch_def slice_def strip_def isspace_def)
  from general ex1 ex2 ex3 show ?thesis by blast
qed

text \<open>
  The general part at \<open>*.{ts, tsx}\<close> (a blank after the comma): the alternatives are
  \<open>ts\<close> and \<open>tsx\<close>, so \<open>index.ts\<close> matches as \<open>*.ts\<close> and \<open>Button.tsx\<close> as \<open>*.tsx\<close>.
\<close>

theorem pattern_matches_brace_alternation_witness:
  "pattern_matches fnmatch (''*.'' @ ''{'' @ ''ts, tsx'' @ ''}'' @ '''') ''index.ts''
     = (fnmatch ''index.ts'' ''*.ts'' \<or> fnmatch ''index.ts'' ''*.tsx'')
   \<and> pattern_matches fnmatch (''*.'' @ ''{'' @ ''ts, tsx'' @ ''}'' @ '''') ''Button.tsx''
     = (fnmatch ''Button.tsx'' ''*.ts'' \<or> fnmatch ''Button.tsx'' ''*.tsx'')
   \<and> fnmatch ''index.ts'' ''*.ts'' \<and> fnmatch ''Button.tsx'' ''*.tsx''"
proof -
  have g: "pattern_matches fnmatch (''*.'' @ ''{'' @ ''ts, tsx'' @ ''}'' @ '''') tgt
      = (\<exists>alt \<in> set (split_on CHR '','' ''ts, tsx''). fnmatch tgt (''*.'' @ strip alt @ ''''))" for tgt
  proof -
    from pattern_matches_brace_alternation [of fnmatch]
    have "\<forall>prefix body suffix tgt.
      CHR ''{'' \<notin> set prefix \<and> CHR ''}'' \<notin> set prefix \<and> CHR ''}'' \<notin> set body \<longrightarrow>
      pattern_matches fnmatch (prefix @ ''{'' @ body @ ''}'' @ suffix) tgt
        = (\<exists>alt \<in> set (split_on CHR '','' body). fnmatch tgt (prefix @ strip alt @ suffix))"
      by (rule conjunct1)
    from this [rule_format, of "''*.''" "''ts, tsx''" "[]" tgt] show ?thesis
      by simp
  qed
  have alts: "split_on CHR '','' ''ts, tsx'' = [''ts'', '' tsx'']" by simp
  have st: "strip ''ts'' = ''ts''" "strip '' tsx'' = ''tsx''"
    by (simp_all add: strip_def isspace_def)
  have m: "fnmatch ''index.ts'' ''*.ts''" "fnmatch ''Button.tsx'' ''*.tsx''"
    by (simp_all add: fnmatch_def)
  show ?thesis
    unfolding g alts using m by (simp add: st)
qed

section \<open>Permission queue: results\<close>

subsection \<open>The future of a request after each call\<close>

lemma future_of_add_register:
  "future_of (add_register request q) rid
     = (if rid = req_id request then Some None else future_of q rid)"
  by (simp add: future_of_def add_register_def Let_def update_conv')

lemma future_of_cleanup:
  "future_of (cleanup rid' q) rid = (if rid = rid' then None else future_of q rid)"
  by (simp add: future_of_def cleanup_def delete_conv')

lemma respond_accepts_iff:
  "snd (respond response q) \<longleftrightarrow>
     map_of (pending q) (request_id response) \<noteq> None
     \<and> future_of q (request_id response) = Some None"
  by (auto simp: future_of_def respond_def split: option.splits)

lemma future_of_respond:
  "future_of (fst (respond response q)) rid
     = (if rid = request_id response \<and> snd (respond response q)
        then Some (Some response) else future_of q rid)"
  by (auto simp: future_of_def respond_def update_conv' split: option.splits)

lemma respond_refused_unchanged:
  "\<not> snd (respond response q) \<Longrightarrow> fst (respond response q) = q"
  by (auto simp: respond_def split: option.splits)

lemma future_of_timeout_handler:
  "future_of (timeout_handler rid' now q) rid
     = (if rid = rid' \<and> map_of (pending q) rid \<noteq> None \<and> future_of q rid = Some None
        then Some (Some (timeout_response q rid now)) else future_of q rid)"
  by (auto simp: future_of_def timeout_handler_def update_conv' split: option.splits)

lemma future_of_cancel_one:
  "future_of (cancel_one now rid' q) rid
     = (if rid = rid' \<and> future_of q rid = Some None
        then Some (Some (cancelled_response rid now)) else future_of q rid)"
  by (auto simp: future_of_def cancel_one_def update_conv' split: option.splits)

lemma future_of_fold_cancel_one:
  "future_of (fold (cancel_one now) ids q) rid
     = (if rid \<in> set ids \<and> future_of q rid = Some None
        then Some (Some (cancelled_response rid now)) else future_of q rid)"
  by (induction ids arbitrary: q) (auto simp: future_of_cancel_one)

lemma future_of_cancel_all:
  "future_of (fst (cancel_all now q)) rid
     = (if rid \<in> fst ` set (pending q) \<and> future_of q rid = Some None
        then Some (Some (cancelled_response rid now)) else future_of q rid)"
  by (simp add: cancel_all_def Let_def future_of_fold_cancel_one)

subsection \<open>Runs\<close>

lemma run_append: "run (xs @ ys) q = run ys (run xs q)"
  by (induction xs arbitrary: q) auto

lemma deliveries_append:
  "deliveries rid (xs @ ys) q = deliveries rid xs q @ deliveries rid ys (run xs q)"
  by (induction xs arbitrary: q) auto

lemma accepted_append:
  "accepted rid (xs @ ys) q = accepted rid xs q + accepted rid ys (run xs q)"
  by (induction xs arbitrary: q) auto

text \<open>
  A future that is done, or gone, stays so until the id is added again: no call but
  \<open>add\<close> creates a future, and every \<open>set_result\<close> is guarded by \<open>not future.done()\<close>.
\<close>

lemma step_settled:
  assumes "future_of q rid \<noteq> Some None" and "\<not> adds rid c"
  shows "future_of (step c q) rid = future_of q rid \<or> future_of (step c q) rid = None"
  using assms
  by (cases c) (auto simp: future_of_add_register future_of_cleanup future_of_respond
      future_of_timeout_handler future_of_cancel_all respond_accepts_iff)

lemma settled_quiet:
  assumes "future_of q rid \<noteq> Some None" and "\<forall>c\<in>set cs. \<not> adds rid c"
  shows "deliveries rid cs q = [] \<and> accepted rid cs q = 0"
  using assms
proof (induction cs arbitrary: q)
  case Nil
  then show ?case by simp
next
  case (Cons c cs)
  from Cons.prems have na: "\<not> adds rid c" and rest: "\<forall>c\<in>set cs. \<not> adds rid c"
    by auto
  from step_settled [OF Cons.prems(1) na]
  have st: "future_of (step c q) rid = future_of q rid \<or> future_of (step c q) rid = None" .
  with Cons.prems(1) have "future_of (step c q) rid \<noteq> Some None" by auto
  from Cons.IH [OF this rest]
  have ih: "deliveries rid cs (step c q) = []" "accepted rid cs (step c q) = 0"
    by auto
  have acc: "(case c of Respond response \<Rightarrow>
          (if request_id response = rid \<and> snd (respond response q) then 1 else 0)
      | _ \<Rightarrow> 0) = (0::nat)"
    using Cons.prems(1) by (cases c) (auto simp: respond_accepts_iff)
  have del: "(case future_of (step c q) rid of
        Some (Some r) \<Rightarrow> (if future_of q rid = Some (Some r) then [] else [r])
      | _ \<Rightarrow> []) = []"
    using st by (auto split: option.splits)
  show ?case using ih acc del by simp
qed

text \<open>While the future is not done, one call resolves it at most once.\<close>

lemma step_waiting:
  assumes "future_of q rid = Some None" and "\<not> adds rid c"
  shows "(case c of Respond response \<Rightarrow>
          (if request_id response = rid \<and> snd (respond response q) then 1 else 0)
      | _ \<Rightarrow> 0) \<le> (1::nat)"
    and "length (case future_of (step c q) rid of
        Some (Some r) \<Rightarrow> (if future_of q rid = Some (Some r) then [] else [r])
      | _ \<Rightarrow> []) \<le> 1"
    and "future_of (step c q) rid = Some None \<Longrightarrow>
       (case c of Respond response \<Rightarrow>
          (if request_id response = rid \<and> snd (respond response q) then 1 else 0)
      | _ \<Rightarrow> 0) = (0::nat) \<and> (case future_of (step c q) rid of
        Some (Some r) \<Rightarrow> (if future_of q rid = Some (Some r) then [] else [r])
      | _ \<Rightarrow> []) = []"
  using assms
  by (cases c; auto simp: future_of_respond split: option.splits)+

lemma at_most_once:
  assumes "\<forall>c\<in>set cs. \<not> adds rid c"
  shows "length (deliveries rid cs q) \<le> 1 \<and> accepted rid cs q \<le> 1"
  using assms
proof (induction cs arbitrary: q)
  case Nil
  then show ?case by simp
next
  case (Cons c cs)
  from Cons.prems have na: "\<not> adds rid c" and rest: "\<forall>c\<in>set cs. \<not> adds rid c"
    by auto
  show ?case
  proof (cases "future_of q rid = Some None")
    case False
    from settled_quiet [OF False Cons.prems] show ?thesis by simp
  next
    case True
    note w = step_waiting [OF True na]
    show ?thesis
    proof (cases "future_of (step c q) rid = Some None")
      case True
      from w(3) [OF True] Cons.IH [OF rest, of "step c q"] show ?thesis by simp
    next
      case False
      from settled_quiet [OF False rest] w(1,2) show ?thesis by simp
    qed
  qed
qed

lemma filter_at_most_one:
  assumes "length (filter P xs) \<le> 1"
  shows "(\<forall>x\<in>set xs. \<not> P x) \<or>
         (\<exists>pre x post. xs = pre @ x # post \<and> P x
            \<and> (\<forall>y\<in>set pre. \<not> P y) \<and> (\<forall>y\<in>set post. \<not> P y))"
proof (cases "\<exists>x\<in>set xs. P x")
  case False
  then show ?thesis by simp
next
  case True
  then obtain pre x post where sp: "xs = pre @ x # post" "P x" "\<forall>y\<in>set pre. \<not> P y"
    by (auto simp: split_list_first_prop_iff)
  with assms have "length (filter P post) = 0" by simp
  then have "\<forall>y\<in>set post. \<not> P y" by (simp add: filter_empty_conv)
  with sp show ?thesis by blast
qed

lemma init_settled: "future_of (PermissionQueue_init secs act) rid \<noteq> Some None"
  by (simp add: future_of_def PermissionQueue_init_def)

lemma at_most_once_from_init:
  assumes "length (filter (adds rid) cs) \<le> 1"
  shows "length (deliveries rid cs (PermissionQueue_init secs act)) \<le> 1
       \<and> accepted rid cs (PermissionQueue_init secs act) \<le> 1"
proof -
  let ?q = "PermissionQueue_init secs act"
  from filter_at_most_one [OF assms]
  consider (none) "\<forall>c\<in>set cs. \<not> adds rid c"
    | (one) pre x post where "cs = pre @ x # post" "adds rid x"
        "\<forall>y\<in>set pre. \<not> adds rid y" "\<forall>y\<in>set post. \<not> adds rid y"
    by blast
  then show ?thesis
  proof cases
    case none
    then show ?thesis by (rule at_most_once)
  next
    case one
    from settled_quiet [OF init_settled one(3)]
    have pre: "deliveries rid pre ?q = []" "accepted rid pre ?q = 0" by auto
    from one(2) obtain request where x: "x = Add request" "req_id request = rid"
      by (cases x) auto
    have mid: "deliveries rid [x] (run pre ?q) = []" "accepted rid [x] (run pre ?q) = 0"
      using x by (simp_all add: future_of_add_register)
    from at_most_once [OF one(4), of "run (pre @ [x]) ?q"]
    have post: "length (deliveries rid post (run (pre @ [x]) ?q)) \<le> 1"
      "accepted rid post (run (pre @ [x]) ?q) \<le> 1" by auto
    have cs: "cs = (pre @ [x]) @ post" using one(1) by simp
    show ?thesis
      unfolding cs deliveries_append [of rid "pre @ [x]"] accepted_append [of rid "pre @ [x]"]
      using pre mid post by (simp add: deliveries_append accepted_append)
  qed
qed

lemma respond_false_path:
  assumes "map_of (pending q) (request_id response) = None
           \<or> future_of q (request_id response) \<noteq> Some None"
  shows "respond response q = (q, False)"
proof -
  from assms have "\<not> snd (respond response q)" by (auto simp: respond_accepts_iff)
  with respond_refused_unchanged [OF this] show ?thesis by (simp add: prod_eq_iff)
qed

text \<open>
  C1: take any request id. (1) From any state of the queue, along any sequence of
  \<open>respond\<close> calls, timer firings, \<open>cancel_all\<close> calls, cleanups and \<open>add\<close>s of other ids, the
  future that the caller of \<open>add\<close> awaits for this id receives at most one response, and
  at most one \<open>respond\<close> call for the id returns \<open>True\<close>. (2) The same holds from the
  empty queue along any sequence of calls in which the id is added at most once. (3) A
  \<open>respond\<close> whose id is not pending, or whose future is already done, returns \<open>False\<close>
  and leaves the whole queue, so both tables, as it was.
\<close>

theorem at_most_one_response:
  "((\<forall>c\<in>set cs. \<not> adds rid c) \<longrightarrow>
      length (deliveries rid cs q) \<le> 1 \<and> accepted rid cs q \<le> 1)
   \<and> (length (filter (adds rid) cs) \<le> 1 \<longrightarrow>
      length (deliveries rid cs (PermissionQueue_init secs act)) \<le> 1
      \<and> accepted rid cs (PermissionQueue_init secs act) \<le> 1)
   \<and> (map_of (pending q) (request_id response) = None
        \<or> future_of q (request_id response) \<noteq> Some None \<longrightarrow>
      respond response q = (q, False))"
  using at_most_once [of cs rid q] at_most_once_from_init [of rid cs secs act]
    respond_false_path [of q response]
  by blast

lemma race_evaluated:
  "deliveries ''ab12cd34'' race (PermissionQueue_init 300 ''deny'') = [approve_by 11]"
  "accepted ''ab12cd34'' race (PermissionQueue_init 300 ''deny'') = 1"
  "length (filter (adds ''ab12cd34'') race) = 1"
  "future_of (add_register req1 (PermissionQueue_init 300 ''deny'')) ''ffff0000'' = None"
  by (simp_all add: race_def PermissionQueue_init_def req1_def approve_by_def future_of_def
        add_register_def respond_def timeout_handler_def cancel_all_def cancel_one_def
        cleanup_def)

text \<open>
  In the run \<open>race\<close> the first answer is delivered and accepted; the second answer, the
  timer, the shutdown and a late third answer change nothing. An answer to an id that
  was never added is refused.
\<close>

theorem at_most_one_response_witness:
  "length (filter (adds ''ab12cd34'') race) \<le> 1
   \<and> length (deliveries ''ab12cd34'' race (PermissionQueue_init 300 ''deny'')) \<le> 1
   \<and> deliveries ''ab12cd34'' race (PermissionQueue_init 300 ''deny'') = [approve_by 11]
   \<and> accepted ''ab12cd34'' race (PermissionQueue_init 300 ''deny'') = 1
   \<and> future_of (add_register req1 (PermissionQueue_init 300 ''deny'')) ''ffff0000'' = None
   \<and> respond ((approve_by 33)\<lparr>request_id := ''ffff0000''\<rparr>)
        (add_register req1 (PermissionQueue_init 300 ''deny''))
      = (add_register req1 (PermissionQueue_init 300 ''deny''), False)"
proof -
  let ?q = "add_register req1 (PermissionQueue_init 300 ''deny'')"
  let ?r = "(approve_by 33)\<lparr>request_id := ''ffff0000''\<rparr>"
  note t = at_most_one_response [of race "''ab12cd34''" ?q 300 "''deny''" ?r]
  have one: "length (filter (adds ''ab12cd34'') race) \<le> 1"
    by (simp add: race_evaluated)
  have unknown: "future_of ?q (request_id ?r) \<noteq> Some None"
    by (simp add: race_evaluated)
  from t one have "length (deliveries ''ab12cd34'' race (PermissionQueue_init 300 ''deny'')) \<le> 1"
    by blast
  moreover from t unknown have "respond ?r ?q = (?q, False)"
    by blast
  ultimately show ?thesis
    using one by (simp add: race_evaluated)
qed

subsection \<open>The timeout\<close>

lemma step_leaves_alone:
  assumes "leaves_alone rid c"
  shows "map_of (pending (step c q)) rid = map_of (pending q) rid"
    and "future_of (step c q) rid = future_of q rid"
    and "default_action (step c q) = default_action q"
  using assms
  by (cases c; auto simp: add_register_def Let_def update_conv' cleanup_def delete_conv'
      respond_def timeout_handler_def future_of_def split: option.splits)+

lemma run_leaves_alone:
  assumes "\<forall>c\<in>set cs. leaves_alone rid c"
  shows "map_of (pending (run cs q)) rid = map_of (pending q) rid
     \<and> future_of (run cs q) rid = future_of q rid
     \<and> default_action (run cs q) = default_action q
     \<and> deliveries rid cs q = []"
  using assms
proof (induction cs arbitrary: q)
  case Nil
  then show ?case by simp
next
  case (Cons c cs)
  then have a: "leaves_alone rid c" and rest: "\<forall>c\<in>set cs. leaves_alone rid c"
    by auto
  note s = step_leaves_alone [OF a, of q]
  from Cons.IH [OF rest, of "step c q"] s show ?case
    by (auto split: option.splits)
qed

lemma add_register_waiting:
  "map_of (pending (add_register request q)) (req_id request) \<noteq> None"
  "future_of (add_register request q) (req_id request) = Some None"
  "default_action (add_register request q) = default_action q"
  by (simp_all add: add_register_def Let_def update_conv' future_of_def)

text \<open>
  C5: a request is added; until its timer fires, no \<open>respond\<close> for its id, no
  \<open>cancel_all\<close> and no cleanup of it runs (calls for other requests may). Then the firing
  of the timer resolves the future that the caller of \<open>add\<close> awaits, and the one
  response the caller receives has \<open>approved\<close> equal to (default action = "approve"),
  \<open>responded_by\<close> 0, \<open>auto_approved\<close> true and \<open>policy_name\<close> "timeout".
\<close>

theorem timeout_delivers_default:
  assumes "\<forall>c\<in>set cs. leaves_alone (req_id request) c"
  shows "future_of (run (Add request # cs @ [TimeoutFire (req_id request) now]) q)
           (req_id request)
     = Some (Some \<lparr>request_id = req_id request, approved = (default_action q = ''approve''),
                  responded_by = 0, response_time = now, auto_approved = True,
                  policy_name = Some ''timeout''\<rparr>)
   \<and> deliveries (req_id request) (Add request # cs @ [TimeoutFire (req_id request) now]) q
     = [\<lparr>request_id = req_id request, approved = (default_action q = ''approve''),
         responded_by = 0, response_time = now, auto_approved = True,
         policy_name = Some ''timeout''\<rparr>]"
proof -
  let ?rid = "req_id request"
  let ?q1 = "add_register request q"
  let ?q2 = "run cs ?q1"
  from run_leaves_alone [OF assms, of ?q1] add_register_waiting [of request q]
  have q2: "map_of (pending ?q2) ?rid \<noteq> None" "future_of ?q2 ?rid = Some None"
    "default_action ?q2 = default_action q" "deliveries ?rid cs ?q1 = []"
    by auto
  have fire: "future_of (timeout_handler ?rid now ?q2) ?rid
      = Some (Some (timeout_response ?q2 ?rid now))"
    using q2(1,2) by (simp add: future_of_timeout_handler)
  have d1: "deliveries ?rid [Add request] q = []"
    by (simp add: add_register_waiting)
  have d3: "deliveries ?rid [TimeoutFire ?rid now] ?q2 = [timeout_response ?q2 ?rid now]"
    using fire q2(2) by simp
  have "deliveries ?rid (Add request # cs @ [TimeoutFire ?rid now]) q
      = deliveries ?rid [Add request] q @ deliveries ?rid cs ?q1
        @ deliveries ?rid [TimeoutFire ?rid now] ?q2"
    using deliveries_append [of ?rid "[Add request]" "cs @ [TimeoutFire ?rid now]" q]
      deliveries_append [of ?rid cs "[TimeoutFire ?rid now]" ?q1]
    by simp
  with d1 d3 q2(4)
  have del: "deliveries ?rid (Add request # cs @ [TimeoutFire ?rid now]) q
      = [timeout_response ?q2 ?rid now]"
    by simp
  have "run (Add request # cs @ [TimeoutFire ?rid now]) q = timeout_handler ?rid now ?q2"
    by (simp add: run_append)
  with fire del show ?thesis
    by (simp add: timeout_response_def q2(3))
qed

text \<open>
  Two queues, one with default action "deny" and one with "approve": the request
  \<open>req1\<close> is added, another request comes, is answered and goes, and the timer of
  \<open>req1\<close> fires at time 300.
\<close>

theorem timeout_delivers_default_witness:
  "future_of (run (Add req1 # [Add req2, Respond ((approve_by 11)\<lparr>request_id := ''ffff0000''\<rparr>),
                               Cleanup ''ffff0000''] @ [TimeoutFire (req_id req1) 300])
                (PermissionQueue_init 300 ''deny'')) (req_id req1)
     = Some (Some \<lparr>request_id = ''ab12cd34'', approved = False, responded_by = 0,
                  response_time = 300, auto_approved = True, policy_name = Some ''timeout''\<rparr>)
   \<and> future_of (run (Add req1 # [] @ [TimeoutFire (req_id req1) 300])
                (PermissionQueue_init 300 ''approve'')) (req_id req1)
     = Some (Some \<lparr>request_id = ''ab12cd34'', approved = True, responded_by = 0,
                  response_time = 300, auto_approved = True, policy_name = Some ''timeout''\<rparr>)"
proof -
  have others: "\<forall>c\<in>set [Add req2, Respond ((approve_by 11)\<lparr>request_id := ''ffff0000''\<rparr>),
                          Cleanup ''ffff0000'']. leaves_alone (req_id req1) c"
    by (simp add: req1_def req2_def approve_by_def)
  have none: "\<forall>c\<in>set []. leaves_alone (req_id req1) c"
    by simp
  from timeout_delivers_default [OF others, of 300 "PermissionQueue_init 300 ''deny''"]
    timeout_delivers_default [OF none, of 300 "PermissionQueue_init 300 ''approve''"]
  show ?thesis
    by (simp add: req1_def PermissionQueue_init_def)
qed

section \<open>Library functions: results\<close>

subsection \<open>URL-safe Base64 decodes what it encodes\<close>

lemma b64_value_char: "i < 64 \<Longrightarrow> b64_value (b64_char i) = Some i"
  by (auto simp: b64_value_def b64_char_def Let_def)

lemma of_char_b64_char:
  "i < 64 \<Longrightarrow> (of_char (b64_char i) :: nat) \<in> {45} \<union> {48..57} \<union> {65..90} \<union> {95} \<union> {97..122}"
  by (auto simp: b64_char_def)

lemma b64_char_plain:
  assumes "i < 64"
  shows "b64_char i \<noteq> CHR ''=''" and "b64_char i \<noteq> CHR ''|''" and "(of_char (b64_char i) :: nat) < 128"
  using of_char_b64_char [OF assms] by auto

lemma split_digit:
  fixes m x k :: nat
  assumes "x < k"
  shows "(m * k + x) div k = m" and "(m * k + x) mod k = x"
  using assms by simp_all

lemma regroup3a:
  fixes a b :: nat
  assumes "b < 256"
  shows "(a div 4) * 4 + ((a mod 4) * 16 + b div 16) div 16 = a"
proof -
  have "b div 16 < 16" using assms by simp
  then have "((a mod 4) * 16 + b div 16) div 16 = a mod 4" by (rule split_digit)
  then show ?thesis by simp
qed

lemma regroup3b:
  fixes a b c :: nat
  assumes "b < 256" "c < 256"
  shows "(((a mod 4) * 16 + b div 16) mod 16) * 16 + ((b mod 16) * 4 + c div 64) div 4 = b"
proof -
  have "b div 16 < 16" using assms by simp
  then have 1: "((a mod 4) * 16 + b div 16) mod 16 = b div 16" by (rule split_digit)
  have "c div 64 < 4" using assms by simp
  then have 2: "((b mod 16) * 4 + c div 64) div 4 = b mod 16" by (rule split_digit)
  show ?thesis unfolding 1 2 by simp
qed

lemma regroup3c:
  fixes b c :: nat
  assumes "c < 256"
  shows "(((b mod 16) * 4 + c div 64) mod 4) * 64 + c mod 64 = c"
proof -
  have "c div 64 < 4" using assms by simp
  then have 1: "((b mod 16) * 4 + c div 64) mod 4 = c div 64" by (rule split_digit)
  show ?thesis unfolding 1 by simp
qed

lemma regroup2b:
  fixes a b :: nat
  assumes "b < 256"
  shows "(((a mod 4) * 16 + b div 16) mod 16) * 16 + ((b mod 16) * 4) div 4 = b"
proof -
  have "b div 16 < 16" using assms by simp
  then have 1: "((a mod 4) * 16 + b div 16) mod 16 = b div 16" by (rule split_digit)
  show ?thesis unfolding 1 by simp
qed

lemma sextets:
  fixes a b c :: nat
  assumes "a < 256" "b < 256" "c < 256"
  shows "a div 4 < 64" "(a mod 4) * 16 + b div 16 < 64" "(b mod 16) * 4 + c div 64 < 64" "c mod 64 < 64"
        "(a mod 4) * 16 < 64" "(b mod 16) * 4 < 64"
  using assms by auto

lemma of_char_bound: "(of_char (x::char) :: nat) < 256"
  by (metis of_char_mod_256 mod_less_divisor zero_less_numeral)

text \<open>One step of the decoder on a character of the alphabet, and on a padding character.\<close>

lemma a2b_step:
  assumes "i < 64"
  shows "a2b_base64 qp l p out (b64_char i # rest) =
     (if qp = 0 then a2b_base64 1 i 0 out rest
      else if qp = 1 then a2b_base64 2 (i mod 16) 0 (out @ [char_of (l * 4 + i div 16)]) rest
      else if qp = 2 then a2b_base64 3 (i mod 4) 0 (out @ [char_of (l * 16 + i div 4)]) rest
      else a2b_base64 0 0 0 (out @ [char_of (l * 64 + i)]) rest)"
  using b64_value_char [OF assms] b64_char_plain(1) [OF assms] by simp

lemma decode_group3:
  "a2b_base64 0 l p out
     ([b64_char (of_char x div 4), b64_char ((of_char x mod 4) * 16 + of_char y div 16),
       b64_char ((of_char y mod 16) * 4 + of_char z div 64), b64_char (of_char z mod 64)] @ rest)
   = a2b_base64 0 0 0 (out @ [x, y, z]) rest"
proof -
  let ?a = "of_char x :: nat" and ?b = "of_char y :: nat" and ?c = "of_char z :: nat"
  have bd: "?a < 256" "?b < 256" "?c < 256" by (rule of_char_bound)+
  have s: "?a div 4 < 64" "(?a mod 4) * 16 + ?b div 16 < 64"
    "(?b mod 16) * 4 + ?c div 64 < 64" "?c mod 64 < 64"
    by (rule sextets [OF bd])+
  have x: "char_of ((?a div 4) * 4 + ((?a mod 4) * 16 + ?b div 16) div 16) = x"
    by (simp only: regroup3a [OF bd(2)]) simp
  have y: "char_of ((((?a mod 4) * 16 + ?b div 16) mod 16) * 16 + ((?b mod 16) * 4 + ?c div 64) div 4) = y"
    by (simp only: regroup3b [OF bd(2,3)]) simp
  have z: "char_of ((((?b mod 16) * 4 + ?c div 64) mod 4) * 64 + ?c mod 64) = z"
    by (simp only: regroup3c [OF bd(3)]) simp
  show ?thesis
    by (simp only: append_Cons append_Nil a2b_step [OF s(1)] a2b_step [OF s(2)]
        a2b_step [OF s(3)] a2b_step [OF s(4)] x y z) simp
qed

lemma a2b_pad:
  "a2b_base64 qp l p out (CHR ''='' # rest) =
     (if qp \<ge> 2 \<and> qp + (p + 1) \<ge> 4 then Inr out
      else a2b_base64 qp l (if qp \<ge> 2 then p + 1 else p) out rest)"
  by simp

lemma decode_group1:
  "a2b_base64 0 l p out
     [b64_char (of_char x div 4), b64_char ((of_char x mod 4) * 16), CHR ''='', CHR ''='']
   = Inr (out @ [x])"
proof -
  let ?a = "of_char x :: nat"
  have bd: "?a < 256" by (rule of_char_bound)
  have s: "?a div 4 < 64" "(?a mod 4) * 16 < 64"
    by (rule sextets [OF bd bd bd])+
  have x: "char_of ((?a div 4) * 4 + ((?a mod 4) * 16) div 16) = x"
    by simp
  show ?thesis
    by (simp only: a2b_step [OF s(1)] a2b_step [OF s(2)] a2b_pad x) simp
qed

lemma decode_group2:
  "a2b_base64 0 l p out
     [b64_char (of_char x div 4), b64_char ((of_char x mod 4) * 16 + of_char y div 16),
      b64_char ((of_char y mod 16) * 4), CHR ''='']
   = Inr (out @ [x, y])"
proof -
  let ?a = "of_char x :: nat" and ?b = "of_char y :: nat"
  have bd: "?a < 256" "?b < 256" by (rule of_char_bound)+
  have s: "?a div 4 < 64" "(?a mod 4) * 16 + ?b div 16 < 64" "(?b mod 16) * 4 < 64"
    by (rule sextets [OF bd(1) bd(2) bd(2)])+
  have x: "char_of ((?a div 4) * 4 + ((?a mod 4) * 16 + ?b div 16) div 16) = x"
    by (simp only: regroup3a [OF bd(2)]) simp
  have y: "char_of ((((?a mod 4) * 16 + ?b div 16) mod 16) * 16 + ((?b mod 16) * 4) div 4) = y"
    by (simp only: regroup2b [OF bd(2)]) simp
  show ?thesis
    by (simp only: a2b_step [OF s(1)] a2b_step [OF s(2)] a2b_step [OF s(3)] a2b_pad x y) simp
qed

lemma decode_encode:
  "a2b_base64 0 l p out (urlsafe_b64encode bs) = Inr (out @ bs)"
proof (induction bs arbitrary: l p out rule: urlsafe_b64encode.induct)
  case 1
  show ?case by simp
next
  case (2 x)
  show ?case using decode_group1 [of l p out x] by (simp add: Let_def)
next
  case (3 x y)
  show ?case using decode_group2 [of l p out x y] by (simp add: Let_def)
next
  case (4 x y z rest)
  have "a2b_base64 0 l p out (urlsafe_b64encode (x # y # z # rest))
      = a2b_base64 0 0 0 (out @ [x, y, z]) (urlsafe_b64encode rest)"
    using decode_group3 [of l p out x y z "urlsafe_b64encode rest"] by (simp add: Let_def)
  also have "\<dots> = Inr ((out @ [x, y, z]) @ rest)" by (rule "4.IH" [OF refl refl refl])
  finally show ?case by simp
qed

text \<open>
  The encoder's output: characters of the alphabet, then at most two padding characters,
  a multiple of four in all.
\<close>

lemma b64_plain_char: "i < 64 \<Longrightarrow> b64_plain (b64_char i)"
  using b64_char_plain [of i] by (simp add: b64_plain_def)

lemma encode_shape:
  "\<exists>body k. urlsafe_b64encode bs = body @ replicate k CHR ''=''
      \<and> (\<forall>c\<in>set body. b64_plain c) \<and> k < 4 \<and> (length body + k) mod 4 = 0"
proof (induction bs rule: urlsafe_b64encode.induct)
  case 1
  show ?case by (rule exI [of _ "[]"], rule exI [of _ 0]) simp
next
  case (2 x)
  let ?a = "of_char x :: nat"
  have bd: "?a < 256" by (rule of_char_bound)
  note s = sextets [OF bd bd bd]
  show ?case
    by (rule exI [of _ "[b64_char (?a div 4), b64_char ((?a mod 4) * 16)]"], rule exI [of _ 2])
      (simp add: Let_def b64_plain_char s numeral_2_eq_2)
next
  case (3 x y)
  let ?a = "of_char x :: nat" and ?b = "of_char y :: nat"
  have bd: "?a < 256" "?b < 256" by (rule of_char_bound)+
  note s = sextets [OF bd(1) bd(2) bd(2)]
  show ?case
    by (rule exI [of _ "[b64_char (?a div 4), b64_char ((?a mod 4) * 16 + ?b div 16),
          b64_char ((?b mod 16) * 4)]"], rule exI [of _ 1])
      (simp add: Let_def b64_plain_char s)
next
  case (4 x y z rest)
  let ?a = "of_char x :: nat" and ?b = "of_char y :: nat" and ?c = "of_char z :: nat"
  have bd: "?a < 256" "?b < 256" "?c < 256" by (rule of_char_bound)+
  note s = sextets [OF bd]
  from "4.IH" [OF refl refl refl] obtain body k where ih: "urlsafe_b64encode rest = body @ replicate k CHR ''=''"
    "\<forall>c\<in>set body. b64_plain c" "k < 4" "(length body + k) mod 4 = 0" by (elim exE conjE)
  let ?g = "[b64_char (?a div 4), b64_char ((?a mod 4) * 16 + ?b div 16),
          b64_char ((?b mod 16) * 4 + ?c div 64), b64_char (?c mod 64)]"
  have 1: "urlsafe_b64encode (x # y # z # rest) = (?g @ body) @ replicate k CHR ''=''"
    using ih(1) by (simp add: Let_def)
  have 2: "\<forall>c\<in>set (?g @ body). b64_plain c"
    using ih(2) by (simp add: b64_plain_char s)
  have 3: "(length (?g @ body) + k) mod 4 = 0"
    using ih(4) by simp
  show ?case
    by (rule exI [of _ "?g @ body"], rule exI [of _ k]) (use 1 2 3 ih(3) in simp)
qed

lemma rstrip_char_replicate:
  assumes "c \<notin> set body"
  shows "rstrip_char c (body @ replicate k c) = body"
proof -
  have "dropWhile (\<lambda>x. x = c) (replicate k c @ rev body) = dropWhile (\<lambda>x. x = c) (rev body)"
    by (rule dropWhile_append2) simp
  also have "\<dots> = rev body"
    using assms by (cases "rev body") (auto simp: dropWhile_eq_self_iff)
  finally show ?thesis by (simp add: rstrip_char_def)
qed

lemma pad_count:
  fixes n k :: nat
  assumes "k < 4" "(n + k) mod 4 = 0"
  shows "(if n mod 4 \<noteq> 0 then 4 - n mod 4 else 0) = k"
  using assms by presburger

lemma pad4_body:
  assumes "k < 4" "(length body + k) mod 4 = 0"
  shows "(if length body mod 4 \<noteq> 0
          then body @ replicate (4 - length body mod 4) CHR ''='' else body)
         = body @ replicate k CHR ''=''"
  using pad_count [OF assms] by (simp split: if_splits)


lemma strip_pad_encode:
  "sig_padded (rstrip_char CHR ''='' (urlsafe_b64encode bs)) = urlsafe_b64encode bs"
  "CHR ''|'' \<notin> set (rstrip_char CHR ''='' (urlsafe_b64encode bs))"
  "\<forall>c\<in>set (urlsafe_b64encode bs). (of_char c :: nat) < 128"
proof -
  from encode_shape [of bs] obtain body k where sh:
    "urlsafe_b64encode bs = body @ replicate k CHR ''=''"
    "\<forall>c\<in>set body. b64_plain c" "k < 4" "(length body + k) mod 4 = 0" by (elim exE conjE)
  have nopad: "CHR ''='' \<notin> set body" using sh(2) by (auto simp: b64_plain_def)
  have rs: "rstrip_char CHR ''='' (body @ replicate k CHR ''='') = body"
    by (rule rstrip_char_replicate [OF nopad])
  show "sig_padded (rstrip_char CHR ''='' (urlsafe_b64encode bs)) = urlsafe_b64encode bs"
    unfolding sh(1) rs sig_padded_def by (rule pad4_body [OF sh(3,4)])
  have nobar: "CHR ''|'' \<notin> set body" using sh(2) by (auto simp: b64_plain_def)
  show "CHR ''|'' \<notin> set (rstrip_char CHR ''='' (urlsafe_b64encode bs))"
    unfolding sh(1) rs by (rule nobar)
  have "\<forall>c\<in>set body. (of_char c :: nat) < 128" using sh(2) by (simp add: b64_plain_def)
  then show "\<forall>c\<in>set (urlsafe_b64encode bs). (of_char c :: nat) < 128"
    unfolding sh(1) by auto
qed

lemma urlsafe_b64decode_encode: "urlsafe_b64decode (urlsafe_b64encode bs) = Inr bs"
proof -
  have "\<not> (\<exists>c\<in>set (urlsafe_b64encode bs). (of_char c :: nat) \<ge> 128)"
    using strip_pad_encode(3) [of bs] by (meson not_le)
  then show ?thesis
    unfolding urlsafe_b64decode_def using decode_encode [of 0 0 "[]" bs] by simp
qed

subsection \<open>Decimal integers\<close>

lemma of_char_digit_char: "d < 10 \<Longrightarrow> (of_char (digit_char d) :: nat) = 48 + d"
  by (simp add: digit_char_def)

lemma isdigit_digit_char: "d < 10 \<Longrightarrow> isdigit (digit_char d)"
  by (simp add: isdigit_def of_char_digit_char)

lemma str_nat_digits: "\<forall>c\<in>set (str_nat n). isdigit c"
proof (induction n rule: str_nat.induct)
  case (1 n)
  show ?case
  proof (cases "n < 10")
    case True
    then show ?thesis by (subst str_nat.simps) (simp add: isdigit_digit_char)
  next
    case False
    with 1 show ?thesis by (subst str_nat.simps) (simp add: isdigit_digit_char)
  qed
qed

lemma str_nat_not_Nil: "str_nat n \<noteq> []"
  by (subst str_nat.simps) simp

lemma digits_value_append:
  "\<forall>c\<in>set xs. isdigit c \<Longrightarrow>
     digits_value acc (xs @ ys)
       = digits_value (foldl (\<lambda>a c. 10 * a + ((of_char c :: nat) - 48)) acc xs) ys"
  by (induction xs arbitrary: acc) auto

lemma foldl_str_nat:
  "foldl (\<lambda>a c. 10 * a + ((of_char c :: nat) - 48)) 0 (str_nat n) = n"
proof (induction n rule: str_nat.induct)
  case (1 n)
  show ?case
  proof (cases "n < 10")
    case True
    then show ?thesis by (subst str_nat.simps) (simp add: of_char_digit_char)
  next
    case False
    with 1 show ?thesis by (subst str_nat.simps) (simp add: of_char_digit_char)
  qed
qed

lemma nat_of_str_str_nat: "nat_of_str (str_nat n) = Inr n"
proof -
  have "digits_value 0 (str_nat n @ []) = digits_value n []"
    using digits_value_append [OF str_nat_digits, of 0 n "[]"] by (simp add: foldl_str_nat)
  moreover have "isdigit (hd (str_nat n))"
    using str_nat_digits [of n] str_nat_not_Nil [of n] by (cases "str_nat n") auto
  ultimately show ?thesis by (simp add: nat_of_str_def str_nat_not_Nil)
qed

lemma strip_id:
  assumes "\<forall>c\<in>set s. \<not> isspace c"
  shows "strip s = s"
proof -
  have d: "dropWhile isspace xs = xs" if "\<forall>c\<in>set xs. \<not> isspace c" for xs
    using that by (cases xs) auto
  show ?thesis using assms by (simp add: strip_def d)
qed

lemma isdigit_plain:
  assumes "isdigit c"
  shows "\<not> isspace c" "c \<noteq> CHR ''-''" "c \<noteq> CHR ''+''" "c \<noteq> CHR ''|''"
  using assms by (auto simp: isdigit_def isspace_def)

lemma str_int_plain: "\<forall>c\<in>set (str_int i). \<not> isspace c \<and> c \<noteq> CHR ''|''"
  using str_nat_digits isdigit_plain by (auto simp: str_int_def isspace_def)

lemma int_of_str_str_int: "int_of_str (str_int i) = Inr i"
proof -
  have st: "strip (str_int i) = str_int i"
    using str_int_plain [of i] by (intro strip_id) simp
  show ?thesis
  proof (cases "i < 0")
    case True
    then show ?thesis
      by (simp add: int_of_str_def st) (simp add: str_int_def nat_of_str_str_nat)
  next
    case False
    obtain c cs where cs: "str_nat (nat i) = c # cs"
      using str_nat_not_Nil [of "nat i"] by (cases "str_nat (nat i)") auto
    then have "isdigit c" using str_nat_digits [of "nat i"] by simp
    note pl = isdigit_plain [OF this]
    have "nat_of_str (c # cs) = Inr (nat i)"
      using nat_of_str_str_nat [of "nat i"] cs by simp
    with False pl cs show ?thesis
      by (simp add: int_of_str_def st) (simp add: str_int_def)
  qed
qed

subsection \<open>Splitting at the last separators\<close>

lemma split_on_not_Nil: "split_on c xs \<noteq> []"
  by (induction xs) (auto split: list.splits)

lemma split_on_append:
  "split_on c (xs @ c # ys) = split_on c xs @ split_on c ys"
  using split_on_not_Nil [of c]
  by (induction xs) (auto split: list.splits)

lemma split_on_single: "c \<notin> set xs \<Longrightarrow> split_on c xs = [xs]"
  by (induction xs) auto

lemma join_split_on: "join c (split_on c xs) = xs"
proof (induction xs)
  case Nil
  show ?case by simp
next
  case (Cons x xs)
  obtain w ws where w: "split_on c xs = w # ws"
    using split_on_not_Nil [of c xs] by (cases "split_on c xs") auto
  with Cons show ?case by (cases ws) auto
qed

lemma rsplit_two:
  assumes "c \<notin> set a" "c \<notin> set b"
  shows "rsplit c 2 (pl @ c # a @ c # b) = [pl, a, b]"
proof -
  let ?ps = "split_on c pl"
  have parts: "split_on c (pl @ c # a @ c # b) = ?ps @ [a, b]"
    using split_on_append [of c pl "a @ c # b"] split_on_append [of c a b]
      split_on_single [OF assms(1)] split_on_single [OF assms(2)] by simp
  have len: "length ?ps \<ge> 1"
    using split_on_not_Nil [of c pl] by (cases ?ps) auto
  show ?thesis
  proof (cases "length ?ps = 1")
    case True
    then obtain p where p: "?ps = [p]" by (cases ?ps) auto
    with join_split_on [of c pl] have "p = pl" by simp
    with p show ?thesis by (simp add: rsplit_def parts Let_def)
  next
    case False
    with len have "\<not> length ?ps + 2 \<le> 3" by simp
    then show ?thesis
      by (simp add: rsplit_def parts Let_def join_split_on)
  qed
qed

section \<open>Callback signer: results\<close>

lemma sign_parts:
  "rsplit CHR ''|'' 2 (sign mac key t pl)
     = [pl, str_int t,
        rstrip_char CHR ''='' (urlsafe_b64encode (take 16 (mac key (pl @ ''|'' @ str_int t))))]"
proof -
  have a: "CHR ''|'' \<notin> set (str_int t)" using str_int_plain [of t] by auto
  note b = strip_pad_encode(2) [of "take 16 (mac key (pl @ ''|'' @ str_int t))"]
  from rsplit_two [OF a b, of pl] show ?thesis
    by (simp add: sign_def Let_def)
qed

text \<open>
  C7: for every payload and key, a token signed at time \<open>t\<close> and verified at time \<open>now\<close>
  is rejected when \<open>now - t > max_age\<close> or \<open>t > now + 60\<close>, although its signature is
  correct, and is accepted otherwise, giving back the payload (with the time stamp and
  the signature); at the same clock time, \<open>now = t\<close>, it is accepted for every
  \<open>max_age \<ge> 0\<close>. Any token at all whose time stamp is older than \<open>max_age\<close> or more
  than 60 seconds ahead is rejected.
\<close>

theorem verify_sign:
  "verify mac key now (sign mac key t pl) max_age_secs =
     (if now - t > max_age_secs \<or> t > now + 60 then None
      else Some \<lparr>payload = pl, cb_timestamp = t,
                 signature = rstrip_char CHR ''=''
                   (urlsafe_b64encode (take 16 (mac key (pl @ ''|'' @ str_int t))))\<rparr>)
   \<and> (\<forall>signed_data pl' timestamp_str sg ts.
        rsplit CHR ''|'' 2 signed_data = [pl', timestamp_str, sg]
        \<and> int_of_str timestamp_str = Inr ts
        \<and> (now - ts > max_age_secs \<or> ts > now + 60)
        \<longrightarrow> verify mac key now signed_data max_age_secs = None)"
proof -
  let ?d = "take 16 (mac key (pl @ ''|'' @ str_int t))"
  let ?sg = "rstrip_char CHR ''='' (urlsafe_b64encode ?d)"
  have first: "verify mac key now (sign mac key t pl) max_age_secs =
     (if now - t > max_age_secs \<or> t > now + 60 then None
      else Some \<lparr>payload = pl, cb_timestamp = t, signature = ?sg\<rparr>)"
    unfolding verify_def sign_parts
    by (simp add: int_of_str_str_int Let_def strip_pad_encode(1) urlsafe_b64decode_encode)
  have second: "verify mac key now signed_data max_age_secs = None"
    if "rsplit CHR ''|'' 2 signed_data = [pl', timestamp_str, sg]"
      and "int_of_str timestamp_str = Inr ts"
      and "now - ts > max_age_secs \<or> ts > now + 60"
    for signed_data pl' timestamp_str sg ts
    using that by (auto simp: verify_def)
  from first second show ?thesis by blast
qed

text \<open>
  A token for \<open>approve:ab12cd34\<close> signed at second 1000 with the stand-in MAC: verified
  at once and five minutes later it gives the payload back, one second after that it has
  expired, and 61 seconds before its time stamp it is refused as dated in the future.
\<close>

theorem verify_sign_witness:
  "map_option payload
     (verify stub_mac ''k'' 1000 (sign stub_mac ''k'' 1000 ''approve:ab12cd34'')
        CALLBACK_MAX_AGE_SECONDS) = Some ''approve:ab12cd34''
   \<and> map_option payload
     (verify stub_mac ''k'' 1300 (sign stub_mac ''k'' 1000 ''approve:ab12cd34'')
        CALLBACK_MAX_AGE_SECONDS) = Some ''approve:ab12cd34''
   \<and> verify stub_mac ''k'' 1301 (sign stub_mac ''k'' 1000 ''approve:ab12cd34'')
        CALLBACK_MAX_AGE_SECONDS = None
   \<and> verify stub_mac ''k'' 939 (sign stub_mac ''k'' 1000 ''approve:ab12cd34'')
        CALLBACK_MAX_AGE_SECONDS = None"
  using verify_sign [of stub_mac "''k''" 1000 1000 "''approve:ab12cd34''" 300]
    verify_sign [of stub_mac "''k''" 1300 1000 "''approve:ab12cd34''" 300]
    verify_sign [of stub_mac "''k''" 1301 1000 "''approve:ab12cd34''" 300]
    verify_sign [of stub_mac "''k''" 939 1000 "''approve:ab12cd34''" 300]
  by (simp add: CALLBACK_MAX_AGE_SECONDS_def)

section \<open>Audit log: results\<close>

subsection \<open>Hexadecimal text decodes to the bytes it encodes\<close>

lemma hex_value_digit: "d < 16 \<Longrightarrow> hex_value (hex_digit d) = Some d"
  by (auto simp: hex_value_def hex_digit_def Let_def)

lemma hex_digit_plain:
  assumes "d < 16"
  shows "\<not> hex_blank (hex_digit d)" and "(of_char (hex_digit d) :: nat) < 128"
  using assms by (auto simp: hex_blank_def hex_digit_def)

lemma of_char_bound': "(of_char (x::char) :: nat) < 256"
  by (metis of_char_mod_256 mod_less_divisor zero_less_numeral)

lemma nibbles:
  fixes n :: nat
  assumes "n < 256"
  shows "n div 16 < 16" and "n mod 16 < 16"
  using assms by auto

lemma fromhex_hex: "fromhex (hex bs) = Inr bs"
proof (induction bs)
  case Nil
  show ?case by (simp add: hex_def)
next
  case (Cons b bs)
  let ?n = "of_char b :: nat"
  have d: "?n div 16 < 16" "?n mod 16 < 16"
    by (rule nibbles [OF of_char_bound'])+
  have b: "char_of (16 * (?n div 16) + ?n mod 16) = b" by simp
  have "hex (b # bs) = hex_digit (?n div 16) # hex_digit (?n mod 16) # hex bs"
    by (simp add: hex_def)
  then show ?case
    using Cons hex_value_digit [OF d(1)] hex_value_digit [OF d(2)] hex_digit_plain(1) [OF d(1)] b
    by simp
qed

lemma hex_ascii: "is_ascii (hex bs)"
proof -
  have "(of_char (hex_digit ((of_char b :: nat) div 16)) :: nat) < 128
      \<and> (of_char (hex_digit ((of_char b :: nat) mod 16)) :: nat) < 128" for b :: char
    by (intro conjI hex_digit_plain(2) nibbles [OF of_char_bound'])
  then show ?thesis by (auto simp: is_ascii_def hex_def)
qed

lemma hex_Nil_iff: "hex bs = [] \<longleftrightarrow> bs = []"
  by (cases bs) (simp_all add: hex_def)

subsection \<open>The verifier's loop\<close>

text \<open>Errors are only ever appended, and the loop over a file runs part by part.\<close>

lemma verify_lines_errors:
  "verify_lines env key n ls (p, e1 @ e2)
     = map_sum (\<lambda>e. e) (\<lambda>st. (fst st, e1 @ snd st)) (verify_lines env key n ls (p, e2))"
proof (induction ls arbitrary: n p e2)
  case Nil
  show ?case by simp
next
  case (Cons l ls)
  show ?case
  proof (cases l)
    case Blank
    with Cons show ?thesis by simp
  next
    case Malformed
    with Cons [of "Suc n" p "e2 @ [MalformedJSON n]"] show ?thesis by simp
  next
    case (Entry entry)
    show ?thesis
      unfolding Entry verify_lines.simps Let_def fst_conv snd_conv
      by (simp add: Cons [symmetric] split: sum.splits)
  qed
qed


lemma verify_lines_append:
  assumes "verify_lines env key n xs st = Inr st1"
  shows "verify_lines env key n (xs @ ys) st = verify_lines env key (n + length xs) ys st1"
  using assms
proof (induction xs arbitrary: n st)
  case Nil
  then show ?case by simp
next
  case (Cons l xs)
  show ?case
  proof (cases l)
    case Blank
    with Cons.prems have "verify_lines env key (Suc n) xs st = Inr st1" by simp
    from Cons.IH [OF this] show ?thesis by (simp add: Blank)
  next
    case Malformed
    with Cons.prems
    have "verify_lines env key (Suc n) xs (fst st, snd st @ [MalformedJSON n]) = Inr st1"
      by simp
    from Cons.IH [OF this] show ?thesis by (simp add: Malformed)
  next
    case (Entry entry)
    from Cons.prems obtain st2 where
      a: "verify_lines env key n [Entry entry] st = Inr st2"
      and b: "verify_lines env key (Suc n) xs st2 = Inr st1"
      unfolding Entry verify_lines.simps Let_def
      by (auto split: if_splits sum.splits)
    have c: "verify_lines env key n (Entry entry # zs) st = verify_lines env key (Suc n) zs st2" for zs
      using a unfolding verify_lines.simps Let_def
      by (auto split: if_splits sum.splits)
    from Cons.IH [OF b] show ?thesis by (simp add: Entry c del: verify_lines.simps)
  qed
qed

subsection \<open>Logging without rotation keeps the chain valid\<close>

lemma verify_signed_entry:
  "verify_lines env key n [Entry (signed_entry env key prev d)] (prev, errs)
     = Inr (env_mac env key (prev @ env_dumps env d), errs)"
  by (simp add: signed_entry_def Let_def hex_ascii hex_Nil_iff fromhex_hex)

lemma log_no_rotation:
  assumes "env_size env (current fs) < al_max_size lg"
  shows "AuditLogger_log env event (fs, lg)
     = Inr (fs(LogPath \<mapsto> current fs @
               [Entry (signed_entry env (al_hmac_key lg) (al_last_hash lg)
                         (to_dict (with_session lg event)))]),
            lg\<lparr>al_last_hash := env_mac env (al_hmac_key lg)
                     (al_last_hash lg @ env_dumps env (to_dict (with_session lg event))),
               al_event_count := al_event_count lg + 1\<rparr>)"
proof -
  have "maybe_rotate env lg fs = fs"
    using assms by (auto simp: maybe_rotate_def current_def split: option.splits)
  then show ?thesis
    by (simp add: AuditLogger_log_def Let_def fromhex_hex signed_entry_def current_def
        with_session_def)
qed

lemma log_all_chain_ok:
  assumes "chain_ok env st"
    and "\<forall>ls. length ls \<le> length (current (fst st)) + length events
           \<longrightarrow> env_size env ls < al_max_size (snd st)"
  shows "\<exists>st1. log_all env events st = Inr st1 \<and> chain_ok env st1
           \<and> al_hmac_key (snd st1) = al_hmac_key (snd st)
           \<and> length (current (fst st1)) = length (current (fst st)) + length events"
  using assms
proof (induction events arbitrary: st)
  case Nil
  then show ?case by simp
next
  case (Cons e es)
  obtain fs lg where st: "st = (fs, lg)" by (cases st)
  let ?key = "al_hmac_key lg"
  let ?d = "to_dict (with_session lg e)"
  let ?entry = "signed_entry env ?key (al_last_hash lg) ?d"
  let ?fs1 = "fs(LogPath \<mapsto> current fs @ [Entry ?entry])"
  let ?lg1 = "lg\<lparr>al_last_hash := env_mac env ?key (al_last_hash lg @ env_dumps env ?d),
               al_event_count := al_event_count lg + 1\<rparr>"
  have small: "env_size env (current fs) < al_max_size lg"
    using Cons.prems(2) st by simp
  have step: "AuditLogger_log env e st = Inr (?fs1, ?lg1)"
    unfolding st by (rule log_no_rotation [OF small])
  have cur: "current ?fs1 = current fs @ [Entry ?entry]"
    by (simp add: current_def)
  have "verify_lines env ?key 1 (current fs @ [Entry ?entry]) ([], [])
      = verify_lines env ?key (1 + length (current fs)) [Entry ?entry] (al_last_hash lg, [])"
    using Cons.prems(1) unfolding chain_ok_def st fst_conv snd_conv
    by (rule verify_lines_append)
  also have "\<dots> = Inr (env_mac env ?key (al_last_hash lg @ env_dumps env ?d), [])"
    by (rule verify_signed_entry)
  finally have ok1: "chain_ok env (?fs1, ?lg1)"
    by (simp add: chain_ok_def cur)
  have bound1: "\<forall>ls. length ls \<le> length (current (fst (?fs1, ?lg1))) + length es
           \<longrightarrow> env_size env ls < al_max_size (snd (?fs1, ?lg1))"
    using Cons.prems(2) by (simp add: cur st)
  from Cons.IH [OF ok1 bound1] obtain st1 where st1:
    "log_all env es (?fs1, ?lg1) = Inr st1" "chain_ok env st1"
    "al_hmac_key (snd st1) = al_hmac_key (snd (?fs1, ?lg1))"
    "length (current (fst st1)) = length (current (fst (?fs1, ?lg1))) + length es"
    by (elim exE conjE)
  have "log_all env (e # es) st = Inr st1"
    using step st1(1) by simp
  moreover have "al_hmac_key (snd st1) = al_hmac_key (snd st)"
    using st1(3) by (simp add: st)
  moreover have "length (current (fst st1)) = length (current (fst st)) + length (e # es)"
    using st1(4) unfolding fst_conv cur by (simp add: st)
  ultimately show ?case using st1(2) by (intro exI [of _ st1] conjI)
qed

text \<open>
  C2: a logger is created with a key (bytes, or valid hexadecimal text) for a log file
  that does not exist yet, and any list of events is logged with it, where no file of at
  most that many lines reaches the size threshold (so no rotation occurs). Then every
  \<open>log\<close> call returns, and \<open>verify_audit_log\<close> with the same key returns
  \<open>(True, [])\<close> on the resulting file; so it does on the file that does not exist
  (the case of no events).
\<close>

theorem audit_round_trip:
  assumes "key_bytes k = Inr key"
    and "fs LogPath = None"
    and "\<forall>ls. length ls \<le> length events
           \<longrightarrow> env_size env ls < max_file_size_mb * 1024 * 1024"
  shows "\<exists>lg st1.
           AuditLogger_init session max_file_size_mb rotate_cnt (Some k) env_key random_key = Inr lg
           \<and> log_all env events (fs, lg) = Inr st1
           \<and> verify_audit_log env (fst st1) k = Inr (True, [])
           \<and> verify_audit_log env fs k = Inr (True, [])"
proof -
  let ?lg = "\<lparr>al_session_id = session, al_max_size = max_file_size_mb * 1024 * 1024,
               al_rotate_count = rotate_cnt, al_event_count = 0, al_hmac_key = key,
               al_last_hash = []\<rparr>"
  have init: "AuditLogger_init session max_file_size_mb rotate_cnt (Some k) env_key random_key
      = Inr ?lg"
    using assms(1) by (simp add: AuditLogger_init_def init_hmac_key_def)
  have cur: "current fs = []" using assms(2) by (simp add: current_def)
  have ok0: "chain_ok env (fs, ?lg)" by (simp add: chain_ok_def cur)
  have bound: "\<forall>ls. length ls \<le> length (current (fst (fs, ?lg))) + length events
           \<longrightarrow> env_size env ls < al_max_size (snd (fs, ?lg))"
    using assms(3) by (simp add: cur)
  from log_all_chain_ok [OF ok0 bound] obtain st1 where st1:
    "log_all env events (fs, ?lg) = Inr st1" "chain_ok env st1"
    "al_hmac_key (snd st1) = al_hmac_key (snd (fs, ?lg))"
    by (elim exE conjE)
  have key1: "al_hmac_key (snd st1) = key" using st1(3) by simp
  have v1: "verify_audit_log env (fst st1) k = Inr (True, [])"
    using st1(2) assms(1)
    by (auto simp: verify_audit_log_def chain_ok_def key1 current_def split: option.splits)
  have v0: "verify_audit_log env fs k = Inr (True, [])"
    using assms(1,2) by (simp add: verify_audit_log_def)
  from init st1(1) v1 v0 show ?thesis by blast
qed

text \<open>
  Two events logged under the key \<open>k\<close> (given in hexadecimal) with a threshold of
  1 MiB.
\<close>

theorem audit_round_trip_witness:
  "\<exists>lg st1.
      AuditLogger_init ''s1'' 1 5 (Some (KeyHex ''6b'')) None ''r'' = Inr lg
      \<and> log_all stub_env [event1, event2] (Map.empty, lg) = Inr st1
      \<and> verify_audit_log stub_env (fst st1) (KeyHex ''6b'') = Inr (True, [])
      \<and> verify_audit_log stub_env Map.empty (KeyHex ''6b'') = Inr (True, [])"
proof -
  have k: "key_bytes (KeyHex ''6b'') = Inr ''k''"
    by code_simp
  have absent: "(Map.empty :: files) LogPath = None" by simp
  have small: "\<forall>ls. length ls \<le> length [event1, event2]
      \<longrightarrow> env_size stub_env ls < 1 * 1024 * 1024"
    by (simp add: stub_env_def)
  from audit_round_trip [OF k absent small] show ?thesis .
qed

subsection \<open>Rotation\<close>










subsection \<open>Tampering with one record\<close>

lemma verify_lines_no_errors_start:
  assumes "verify_lines env key n ls (p, es) = Inr (q, [])"
  shows "es = []"
proof -
  from verify_lines_errors [of env key n ls p es "[]"] assms
  have "map_sum (\<lambda>e. e) (\<lambda>st. (fst st, es @ snd st)) (verify_lines env key n ls (p, []))
      = Inr (q, [])"
    by simp
  then show ?thesis by (cases "verify_lines env key n ls (p, [])") auto
qed

lemma verify_lines_from_errors:
  assumes "verify_lines env key n ls (p, []) = Inr (q, [])"
  shows "verify_lines env key n ls (p, es) = Inr (q, es)"
  using verify_lines_errors [of env key n ls p es "[]"] assms by simp

lemma hex_Nil [simp]: "hex [] = []"
  by (simp add: hex_def)

lemma verify_entry_step:
  assumes "is_ascii (le_hmac e)" and "fromhex (le_hmac e) = Inr b"
  shows "verify_lines env key n (Entry e # ls) (p, errs)
     = verify_lines env key (Suc n) ls
         (b, errs
            @ (if hex p \<noteq> le_prev_hash e
               then [HashChainBroken n (take 8 (le_prev_hash e)) (take 8 (hex p))] else [])
            @ (if hex (env_mac env key (p @ env_dumps env (le_event e))) \<noteq> le_hmac e
               then [InvalidHMAC n] else []))"
proof (cases "le_hmac e = []")
  case True
  with assms have "b = []" by simp
  with True assms(1) show ?thesis by (cases "p = []") (simp_all add: Let_def)
next
  case False
  with assms show ?thesis by (cases "p = []") (simp_all add: Let_def)
qed

lemma verify_entry_clean:
  assumes "verify_lines env key n (Entry e # ls) (p, []) = Inr (q, [])"
  shows "\<exists>b. is_ascii (le_hmac e) \<and> fromhex (le_hmac e) = Inr b
           \<and> hex p = le_prev_hash e
           \<and> hex (env_mac env key (p @ env_dumps env (le_event e))) = le_hmac e
           \<and> verify_lines env key (Suc n) ls (b, []) = Inr (q, [])"
proof -
  have ascii: "is_ascii (le_hmac e)"
    using assms by (auto simp: Let_def split: if_splits)
  show ?thesis
  proof (cases "fromhex (le_hmac e)")
    case (Inl err)
    then have ne: "le_hmac e \<noteq> []" by auto
    from assms ascii Inl ne obtain es where
      "verify_lines env key (Suc n) ls (p, es @ [InvalidValue n]) = Inr (q, [])"
      by (auto simp: Let_def split: if_splits)
    from verify_lines_no_errors_start [OF this] show ?thesis by simp
  next
    case (Inr b)
    note step = verify_entry_step [OF ascii Inr, of env key n ls p "[]"]
    from assms have run: "verify_lines env key (Suc n) ls
         (b, [] @ (if hex p \<noteq> le_prev_hash e
               then [HashChainBroken n (take 8 (le_prev_hash e)) (take 8 (hex p))] else [])
            @ (if hex (env_mac env key (p @ env_dumps env (le_event e))) \<noteq> le_hmac e
               then [InvalidHMAC n] else [])) = Inr (q, [])"
      unfolding step .
    from verify_lines_no_errors_start [OF run]
    have link: "hex p = le_prev_hash e"
      and mac: "hex (env_mac env key (p @ env_dumps env (le_event e))) = le_hmac e"
      by (auto split: if_splits)
    from run link mac have "verify_lines env key (Suc n) ls (b, []) = Inr (q, [])" by simp
    with ascii Inr link mac show ?thesis by blast
  qed
qed

lemma verify_lines_prefix_clean:
  assumes "verify_lines env key n (xs @ ys) (p, []) = Inr (q, [])"
  shows "\<exists>p1. verify_lines env key n xs (p, []) = Inr (p1, [])
           \<and> verify_lines env key (n + length xs) ys (p1, []) = Inr (q, [])"
  using assms
proof (induction xs arbitrary: n p)
  case Nil
  then show ?case by simp
next
  case (Cons l xs)
  show ?case
  proof (cases l)
    case Blank
    with Cons.prems have "verify_lines env key (Suc n) (xs @ ys) (p, []) = Inr (q, [])" by simp
    from Cons.IH [OF this] show ?thesis by (simp add: Blank)
  next
    case Malformed
    with Cons.prems
    have "verify_lines env key (Suc n) (xs @ ys) (p, [MalformedJSON n]) = Inr (q, [])"
      by simp
    from verify_lines_no_errors_start [OF this] show ?thesis by simp
  next
    case (Entry entry)
    from Cons.prems have "verify_lines env key n (Entry entry # xs @ ys) (p, []) = Inr (q, [])"
      by (simp add: Entry del: verify_lines.simps)
    from verify_entry_clean [OF this] obtain b where
      ascii: "is_ascii (le_hmac entry)" and b: "fromhex (le_hmac entry) = Inr b"
      and link: "hex p = le_prev_hash entry"
      and mac: "hex (env_mac env key (p @ env_dumps env (le_event entry))) = le_hmac entry"
      and rest: "verify_lines env key (Suc n) (xs @ ys) (b, []) = Inr (q, [])"
      by (elim exE conjE)
    from Cons.IH [OF rest] obtain p1 where
      p1: "verify_lines env key (Suc n) xs (b, []) = Inr (p1, [])"
      and tl: "verify_lines env key (Suc n + length xs) ys (p1, []) = Inr (q, [])"
      by (elim exE conjE)
    have "verify_lines env key n (Entry entry # xs) (p, []) = Inr (p1, [])"
      using p1 link mac by (simp add: verify_entry_step [OF ascii b] del: verify_lines.simps)
    with tl show ?thesis by (simp add: Entry del: verify_lines.simps)
  qed
qed

subsection \<open>A signed chain and a forged signature\<close>

lemma hex_inj: "hex a = hex b \<longleftrightarrow> a = b"
proof
  assume "hex a = hex b"
  then have "fromhex (hex a) = fromhex (hex b)" by simp
  then show "a = b" by (simp add: fromhex_hex)
qed simp

lemma plain_env_simps:
  "env_mac plain_env = plain_mac" "env_dumps plain_env = stub_dumps"
  by (simp_all add: plain_env_def stub_env_def)

lemma entry_fields:
  "le_event entry1 = dict1" "le_hmac entry1 = hex sig1" "le_prev_hash entry1 = []"
  "le_event entry2 = dict2" "le_hmac entry2 = hex sig2" "le_prev_hash entry2 = hex sig1"
  "le_event entry3 = dict3"
  "le_hmac entry3 = hex (plain_mac ''k'' (sig2 @ stub_dumps dict3))"
  "le_prev_hash entry3 = hex sig2"
  by (simp_all add: entry1_def entry2_def entry3_def signed_entry_def plain_env_simps
      sig1_def sig2_def plain_mac_def)

lemma forged_sig_ascii: "is_ascii forged_sig"
  by (simp add: is_ascii_def forged_sig_def)

lemma forged_sig_take: "take 8 forged_sig = ''00000000''"
  by (simp add: forged_sig_def eval_nat_numeral)

lemma zeros_not_sig: "replicate 32 (CHR 0x00) \<noteq> plain_mac ''k'' msg"
proof
  assume "replicate 32 (CHR 0x00) = plain_mac ''k'' msg"
  then have "hd (replicate 32 (CHR 0x00)) = hd (plain_mac ''k'' msg)" by simp
  then show False by (simp add: plain_mac_def)
qed

lemma hex_digit_0: "hex_digit 0 = CHR ''0''"
  by code_simp

lemma hex_zeros: "hex (replicate n (CHR 0x00)) = replicate (2 * n) CHR ''0''"
  by (induction n) (simp_all add: hex_def hex_digit_0)

lemma forged_sig_hex: "forged_sig = hex (replicate 32 (CHR 0x00))"
  by (simp add: forged_sig_def hex_zeros)

lemma forged_sig_bytes: "fromhex forged_sig = Inr (replicate 32 (CHR 0x00))"
  unfolding forged_sig_hex by (rule fromhex_hex)

lemma dumps_differ: "stub_dumps dict3 \<noteq> stub_dumps dict2"
  by code_simp

lemma sig_not_Nil: "plain_mac ''k'' msg \<noteq> []"
  by (simp add: plain_mac_def)

lemma verify_hex_entry_step:
  assumes "le_hmac e = hex m"
  shows "verify_lines env key n (Entry e # ls) (p, errs)
     = verify_lines env key (Suc n) ls
         (m, errs
            @ (if hex p \<noteq> le_prev_hash e
               then [HashChainBroken n (take 8 (le_prev_hash e)) (take 8 (hex p))] else [])
            @ (if hex (env_mac env key (p @ env_dumps env (le_event e))) \<noteq> le_hmac e
               then [InvalidHMAC n] else []))"
proof -
  have a: "is_ascii (le_hmac e)" unfolding assms by (rule hex_ascii)
  have f: "fromhex (le_hmac e) = Inr m" unfolding assms by (rule fromhex_hex)
  show ?thesis by (rule verify_entry_step [OF a f])
qed

lemmas entry_steps =
  verify_hex_entry_step [OF entry_fields(2)]
  verify_hex_entry_step [OF entry_fields(5)]
  verify_hex_entry_step [OF entry_fields(8)]

lemma honest_chain:
  "verify_lines plain_env ''k'' 1 [Entry entry1, Entry entry2, Entry entry3] ([], [])
     = Inr (plain_mac ''k'' (sig2 @ stub_dumps dict3), [])"
  "verify_lines plain_env ''k'' 1 [Entry entry1, Entry entry2] ([], []) = Inr (sig2, [])"
  "verify_lines plain_env ''k'' 1 [Entry entry1] ([], []) = Inr (sig1, [])"
  by (simp_all add: entry_steps entry_fields plain_env_simps
      sig1_def [symmetric] sig2_def [symmetric] del: verify_lines.simps(4))

lemma forged_entry_step:
  "verify_lines env key n (Entry (e\<lparr>le_hmac := forged_sig\<rparr>) # ls) (p, errs)
     = verify_lines env key (Suc n) ls
         (replicate 32 (CHR 0x00), errs
            @ (if hex p \<noteq> le_prev_hash e
               then [HashChainBroken n (take 8 (le_prev_hash e)) (take 8 (hex p))] else [])
            @ (if hex (env_mac env key (p @ env_dumps env (le_event e))) \<noteq> forged_sig
               then [InvalidHMAC n] else []))"
  using verify_hex_entry_step [of "e\<lparr>le_hmac := forged_sig\<rparr>" "replicate 32 (CHR 0x00)" env key n ls p errs]
  by (simp add: forged_sig_hex del: verify_lines.simps(4))

lemma sig_not_forged: "hex (plain_mac ''k'' msg) \<noteq> forged_sig"
  unfolding forged_sig_hex hex_inj using zeros_not_sig [of msg] by simp

lemma zeros_not_sig1: "replicate 32 (CHR 0x00) \<noteq> sig1"
  unfolding sig1_def by (rule zeros_not_sig)

lemma forged_chain:
  "verify_lines plain_env ''k'' 1 [Entry (entry1\<lparr>le_hmac := forged_sig\<rparr>), Entry entry2] ([], [])
     = Inr (sig2, [InvalidHMAC 1, HashChainBroken 2 (take 8 (le_prev_hash entry2)) ''00000000'',
                   InvalidHMAC 2])"
proof -
  have a: "hex (replicate 32 (CHR 0x00)) \<noteq> hex sig1"
    unfolding hex_inj by (rule zeros_not_sig1)
  have b: "hex (plain_mac ''k'' (replicate 32 (CHR 0x00) @ stub_dumps dict2)) \<noteq> hex sig2"
    unfolding hex_inj sig2_def plain_mac_def using zeros_not_sig1 by simp
  have c: "take 8 (hex (replicate 32 (CHR 0x00))) = ''00000000''"
    using forged_sig_take unfolding forged_sig_hex .
  show ?thesis
    by (simp add: forged_entry_step entry_steps entry_fields plain_env_simps sig_not_forged
        a b c del: verify_lines.simps(4))
qed

lemma zeros_not_sig2: "replicate 32 (CHR 0x00) \<noteq> sig2"
  unfolding sig2_def by (rule zeros_not_sig)

lemma forged_chain_as_specified:
  "verify_lines_as_specified plain_env ''k'' 1
       [Entry (entry1\<lparr>le_hmac := forged_sig\<rparr>), Entry entry2] ([], [])
     = Inr (sig2, [InvalidHMAC 1, HashChainBroken 2 (take 8 (le_prev_hash entry2)) ''00000000''])"
proof -
  have a: "hex (replicate 32 (CHR 0x00)) \<noteq> hex sig1"
    unfolding hex_inj by (rule zeros_not_sig1)
  have c: "take 8 (hex (replicate 32 (CHR 0x00))) = ''00000000''"
    using forged_sig_take unfolding forged_sig_hex .
  have z: "replicate 32 (CHR 0x00) \<noteq> []" by simp
  have s1: "hex sig1 \<noteq> forged_sig" unfolding sig1_def by (rule sig_not_forged)
  have n: "forged_sig \<noteq> []" by (simp add: forged_sig_def)
  have s2: "hex (plain_mac ''k'' (sig1 @ stub_dumps dict2)) = hex sig2"
    by (simp add: sig2_def)
  have h2: "hex sig2 \<noteq> []" by (simp add: hex_Nil_iff sig2_def sig_not_Nil)
  show ?thesis
    by (simp add: Let_def entry_fields plain_env_simps forged_sig_ascii forged_sig_bytes
        fromhex_hex hex_ascii a c s1 n s2 h2 sig1_def [symmetric])
qed

text \<open>
  C4, as stated: the signature of a record is recomputed over the record's own stored
  \<open>prev_hash\<close>, so that one tampered record gives one invalid-signature error and at
  most a linkage error at the next record. The code signs over the running hash
  instead, which after a record with a forged \<open>hmac\<close> is the forged value: in a chain
  of two honest entries whose first \<open>hmac\<close> is replaced by zeros,
  \<open>verify_audit_log\<close> reports an invalid signature at line 1, a broken chain at line 2
  and a second invalid signature at line 2, for a record that was not touched. The
  verifier worded as the specification has it reports the first two only.
\<close>

theorem forged_signature_counterexample:
  "verify_audit_log plain_env [LogPath \<mapsto> [Entry entry1, Entry entry2]] (KeyBytes ''k'')
     = Inr (True, [])
   \<and> verify_audit_log plain_env
         [LogPath \<mapsto> [Entry (entry1\<lparr>le_hmac := forged_sig\<rparr>), Entry entry2]] (KeyBytes ''k'')
     = Inr (False, [InvalidHMAC 1,
                    HashChainBroken 2 (take 8 (le_prev_hash entry2)) ''00000000'',
                    InvalidHMAC 2])
   \<and> verify_lines_as_specified plain_env ''k'' 1
         [Entry (entry1\<lparr>le_hmac := forged_sig\<rparr>), Entry entry2] ([], [])
     = Inr (sig2, [InvalidHMAC 1,
                   HashChainBroken 2 (take 8 (le_prev_hash entry2)) ''00000000''])"
proof (intro conjI)
  show "verify_audit_log plain_env [LogPath \<mapsto> [Entry entry1, Entry entry2]] (KeyBytes ''k'')
     = Inr (True, [])"
    using honest_chain(2)
    by (simp add: verify_audit_log_def key_bytes_def del: verify_lines.simps)
  show "verify_audit_log plain_env
         [LogPath \<mapsto> [Entry (entry1\<lparr>le_hmac := forged_sig\<rparr>), Entry entry2]] (KeyBytes ''k'')
     = Inr (False, [InvalidHMAC 1,
                    HashChainBroken 2 (take 8 (le_prev_hash entry2)) ''00000000'',
                    InvalidHMAC 2])"
    using forged_chain
    by (simp add: verify_audit_log_def key_bytes_def del: verify_lines.simps)
  show "verify_lines_as_specified plain_env ''k'' 1
         [Entry (entry1\<lparr>le_hmac := forged_sig\<rparr>), Entry entry2] ([], [])
     = Inr (sig2, [InvalidHMAC 1,
                   HashChainBroken 2 (take 8 (le_prev_hash entry2)) ''00000000''])"
    by (rule forged_chain_as_specified)
qed

text \<open>
  C4, amended: \<open>verify_audit_log\<close> recomputes the signature of each record over the
  running hash, which is the stored \<open>hmac\<close> of the record before (empty at the start),
  compares it with the stored \<open>hmac\<close>, and moves the running hash on to the stored
  \<open>hmac\<close> whether the check passed or not. Hence, in a log that verifies without
  errors: if the payload of one record is replaced, the only error is an invalid
  signature at that record (none when the signature happens to fit the new payload);
  if the \<open>hmac\<close> of one record is replaced by other hexadecimal digits, the errors are
  an invalid signature at that record and, at the record after it, a broken chain and
  a second invalid signature (each unless the forged value happens to fit), and no
  error at any later record.
\<close>

theorem tampering_reported_locally:
  assumes "fs LogPath = Some (xs @ Entry e # ys)"
    and "verify_audit_log env fs (KeyBytes key) = Inr (True, [])"
  shows "\<exists>p. verify_lines env key 1 xs ([], []) = Inr (p, [])
     \<and> verify_audit_log env (fs(LogPath \<mapsto> xs @ Entry (e\<lparr>le_event := d\<rparr>) # ys)) (KeyBytes key)
         = (if hex (env_mac env key (p @ env_dumps env d)) = le_hmac e then Inr (True, [])
            else Inr (False, [InvalidHMAC (Suc (length xs))]))
     \<and> (is_ascii h \<and> fromhex h = Inr b \<and> h \<noteq> le_hmac e \<and> ys = Entry e2 # zs \<longrightarrow>
          verify_audit_log env (fs(LogPath \<mapsto> xs @ Entry (e\<lparr>le_hmac := h\<rparr>) # ys)) (KeyBytes key)
            = Inr (False,
                InvalidHMAC (Suc (length xs))
                  # (if hex b = le_prev_hash e2 then []
                     else [HashChainBroken (Suc (Suc (length xs))) (take 8 (le_prev_hash e2))
                             (take 8 (hex b))])
                  @ (if hex (env_mac env key (b @ env_dumps env (le_event e2))) = le_hmac e2
                     then [] else [InvalidHMAC (Suc (Suc (length xs)))])))"
proof -
  let ?n = "Suc (length xs)"
  have kb: "key_bytes (KeyBytes key) = Inr key" by (simp add: key_bytes_def)
  from assms obtain q where
    honest: "verify_lines env key 1 (xs @ Entry e # ys) ([], []) = Inr (q, [])"
    by (auto simp: verify_audit_log_def kb split: sum.splits)
  from verify_lines_prefix_clean [OF honest] obtain p where
    pre: "verify_lines env key 1 xs ([], []) = Inr (p, [])"
    and at: "verify_lines env key ?n (Entry e # ys) (p, []) = Inr (q, [])"
    by auto
  from verify_entry_clean [OF at] obtain b0 where
    ascii: "is_ascii (le_hmac e)" and b0: "fromhex (le_hmac e) = Inr b0"
    and link: "hex p = le_prev_hash e"
    and mac: "hex (env_mac env key (p @ env_dumps env (le_event e))) = le_hmac e"
    and rest: "verify_lines env key (Suc ?n) ys (b0, []) = Inr (q, [])"
    by (elim exE conjE)
  have run: "verify_lines env key 1 (xs @ ls) ([], []) = verify_lines env key ?n ls (p, [])" for ls
    using verify_lines_append [OF pre, of ls] by simp
  have payload: "verify_lines env key 1 (xs @ Entry (e\<lparr>le_event := d\<rparr>) # ys) ([], [])
      = Inr (q, if hex (env_mac env key (p @ env_dumps env d)) = le_hmac e then []
                else [InvalidHMAC ?n])"
  proof -
    have a: "is_ascii (le_hmac (e\<lparr>le_event := d\<rparr>))" using ascii by simp
    have f: "fromhex (le_hmac (e\<lparr>le_event := d\<rparr>)) = Inr b0" using b0 by simp
    show ?thesis
      unfolding run verify_entry_step [OF a f]
      using link by (simp add: verify_lines_from_errors [OF rest])
  qed
  have forged: "verify_lines env key 1 (xs @ Entry (e\<lparr>le_hmac := h\<rparr>) # ys) ([], [])
      = Inr (q, InvalidHMAC ?n
                  # (if hex b = le_prev_hash e2 then []
                     else [HashChainBroken (Suc ?n) (take 8 (le_prev_hash e2)) (take 8 (hex b))])
                  @ (if hex (env_mac env key (b @ env_dumps env (le_event e2))) = le_hmac e2
                     then [] else [InvalidHMAC (Suc ?n)]))"
    if h: "is_ascii h" "fromhex h = Inr b" "h \<noteq> le_hmac e" and ys: "ys = Entry e2 # zs"
  proof -
    from rest have "verify_lines env key (Suc ?n) (Entry e2 # zs) (b0, []) = Inr (q, [])"
      unfolding ys .
    from verify_entry_clean [OF this] obtain b2 where
      ascii2: "is_ascii (le_hmac e2)" and b2: "fromhex (le_hmac e2) = Inr b2"
      and rest2: "verify_lines env key (Suc (Suc ?n)) zs (b2, []) = Inr (q, [])"
      by (elim exE conjE)
    have a: "is_ascii (le_hmac (e\<lparr>le_hmac := h\<rparr>))" using h(1) by simp
    have f: "fromhex (le_hmac (e\<lparr>le_hmac := h\<rparr>)) = Inr b" using h(2) by simp
    show ?thesis
      unfolding run ys verify_entry_step [OF a f] verify_entry_step [OF ascii2 b2]
      using link mac h(3) by (simp add: verify_lines_from_errors [OF rest2])
  qed
  have v1: "verify_audit_log env (fs(LogPath \<mapsto> xs @ Entry (e\<lparr>le_event := d\<rparr>) # ys)) (KeyBytes key)
         = (if hex (env_mac env key (p @ env_dumps env d)) = le_hmac e then Inr (True, [])
            else Inr (False, [InvalidHMAC ?n]))"
    using payload by (simp add: verify_audit_log_def kb del: verify_lines.simps)
  have v2: "is_ascii h \<and> fromhex h = Inr b \<and> h \<noteq> le_hmac e \<and> ys = Entry e2 # zs \<longrightarrow>
          verify_audit_log env (fs(LogPath \<mapsto> xs @ Entry (e\<lparr>le_hmac := h\<rparr>) # ys)) (KeyBytes key)
            = Inr (False,
                InvalidHMAC ?n
                  # (if hex b = le_prev_hash e2 then []
                     else [HashChainBroken (Suc ?n) (take 8 (le_prev_hash e2)) (take 8 (hex b))])
                  @ (if hex (env_mac env key (b @ env_dumps env (le_event e2))) = le_hmac e2
                     then [] else [InvalidHMAC (Suc ?n)]))"
  proof (intro impI, elim conjE)
    assume h: "is_ascii h" "fromhex h = Inr b" "h \<noteq> le_hmac e" "ys = Entry e2 # zs"
    show "verify_audit_log env (fs(LogPath \<mapsto> xs @ Entry (e\<lparr>le_hmac := h\<rparr>) # ys)) (KeyBytes key)
            = Inr (False,
                InvalidHMAC ?n
                  # (if hex b = le_prev_hash e2 then []
                     else [HashChainBroken (Suc ?n) (take 8 (le_prev_hash e2)) (take 8 (hex b))])
                  @ (if hex (env_mac env key (b @ env_dumps env (le_event e2))) = le_hmac e2
                     then [] else [InvalidHMAC (Suc ?n)]))"
      using forged [OF h] by (simp add: verify_audit_log_def kb del: verify_lines.simps)
  qed
  from pre v1 v2 show ?thesis by (intro exI [of _ p] conjI)
qed

text \<open>
  A chain of three entries whose second entry gets the payload of another event, or
  a signature of zeros.
\<close>

theorem tampering_reported_locally_witness:
  "verify_audit_log plain_env [LogPath \<mapsto> [Entry entry1, Entry entry2, Entry entry3]]
       (KeyBytes ''k'')
     = Inr (True, [])
   \<and> verify_audit_log plain_env
         [LogPath \<mapsto> [Entry entry1, Entry (entry2\<lparr>le_event := dict3\<rparr>), Entry entry3]]
         (KeyBytes ''k'')
     = Inr (False, [InvalidHMAC 2])
   \<and> verify_audit_log plain_env
         [LogPath \<mapsto> [Entry entry1, Entry (entry2\<lparr>le_hmac := forged_sig\<rparr>), Entry entry3]]
         (KeyBytes ''k'')
     = Inr (False, [InvalidHMAC 2,
                    HashChainBroken 3 (take 8 (le_prev_hash entry3)) ''00000000'',
                    InvalidHMAC 3])"
proof -
  let ?fs = "[LogPath \<mapsto> [Entry entry1, Entry entry2, Entry entry3]]"
  let ?zeros = "replicate 32 (CHR 0x00)"
  have f: "?fs LogPath = Some ([Entry entry1] @ Entry entry2 # [Entry entry3])" by simp
  have v: "verify_audit_log plain_env ?fs (KeyBytes ''k'') = Inr (True, [])"
    using honest_chain(1)
    by (simp add: verify_audit_log_def key_bytes_def del: verify_lines.simps)
  from tampering_reported_locally [where d = dict3 and h = forged_sig and b = ?zeros
      and ?e2.0 = entry3 and zs = "[]", OF f v]
  obtain p where p: "verify_lines plain_env ''k'' 1 [Entry entry1] ([], []) = Inr (p, [])"
    and t1: "verify_audit_log plain_env
        (?fs(LogPath \<mapsto> [Entry entry1] @ Entry (entry2\<lparr>le_event := dict3\<rparr>) # [Entry entry3]))
        (KeyBytes ''k'')
      = (if hex (env_mac plain_env ''k'' (p @ env_dumps plain_env dict3)) = le_hmac entry2
         then Inr (True, []) else Inr (False, [InvalidHMAC (Suc (length [Entry entry1]))]))"
    and t2: "is_ascii forged_sig \<and> fromhex forged_sig = Inr ?zeros
        \<and> forged_sig \<noteq> le_hmac entry2 \<and> [Entry entry3] = Entry entry3 # [] \<longrightarrow>
      verify_audit_log plain_env
        (?fs(LogPath \<mapsto> [Entry entry1] @ Entry (entry2\<lparr>le_hmac := forged_sig\<rparr>) # [Entry entry3]))
        (KeyBytes ''k'')
      = Inr (False,
          InvalidHMAC (Suc (length [Entry entry1]))
            # (if hex ?zeros = le_prev_hash entry3 then []
               else [HashChainBroken (Suc (Suc (length [Entry entry1])))
                       (take 8 (le_prev_hash entry3)) (take 8 (hex ?zeros))])
            @ (if hex (env_mac plain_env ''k'' (?zeros @ env_dumps plain_env (le_event entry3)))
                   = le_hmac entry3
               then [] else [InvalidHMAC (Suc (Suc (length [Entry entry1])))]))"
    by (elim exE conjE)
  from p honest_chain(3) have p1: "p = sig1" by simp
  have c: "take 8 (hex ?zeros) = ''00000000''"
    using forged_sig_take unfolding forged_sig_hex .
  have m: "hex (plain_mac ''k'' (sig1 @ stub_dumps dict3)) \<noteq> hex sig2"
    unfolding hex_inj sig2_def plain_mac_def using dumps_differ by simp
  have payload: "verify_audit_log plain_env
         [LogPath \<mapsto> [Entry entry1, Entry (entry2\<lparr>le_event := dict3\<rparr>), Entry entry3]]
         (KeyBytes ''k'')
     = Inr (False, [InvalidHMAC 2])"
    using t1 m by (simp add: p1 entry_fields plain_env_simps)
  have s2: "forged_sig \<noteq> hex sig2"
    using sig_not_forged [of "sig1 @ stub_dumps dict2"] by (simp add: sig2_def)
  have a: "hex ?zeros \<noteq> hex sig2"
    unfolding hex_inj by (rule zeros_not_sig2)
  have b: "hex (plain_mac ''k'' (?zeros @ stub_dumps dict3))
      \<noteq> hex (plain_mac ''k'' (sig2 @ stub_dumps dict3))"
    unfolding hex_inj plain_mac_def using zeros_not_sig2 by simp
  have forged: "verify_audit_log plain_env
         [LogPath \<mapsto> [Entry entry1, Entry (entry2\<lparr>le_hmac := forged_sig\<rparr>), Entry entry3]]
         (KeyBytes ''k'')
     = Inr (False, [InvalidHMAC 2,
                    HashChainBroken 3 (take 8 (le_prev_hash entry3)) ''00000000'',
                    InvalidHMAC 3])"
    using t2 s2 a b
    by (simp add: entry_fields plain_env_simps forged_sig_ascii forged_sig_bytes c
       )
  from v payload forged show ?thesis by (intro conjI)
qed

end
